theory Spec2Isabelle
  imports Complex_Main "HOL-Library.Sublist"
begin

text \<open>
  A shallow embedding of the five exported functions of \<^verbatim>\<open>src/index.ts\<close>
  (\<^verbatim>\<open>slugify\<close>, \<^verbatim>\<open>resolveObjectPath\<close>, \<^verbatim>\<open>extractNumber\<close>,
  \<^verbatim>\<open>transformEmptyValues\<close>, \<^verbatim>\<open>replaceString\<close>) together with the parts of the
  JavaScript run time they call: strings, dynamically typed values, regular expressions
  and the number parsers. The first part of the theory holds the definitions, the second
  the lemmas and the theorems about them.
\<close>

chapter \<open>Definitions\<close>

section \<open>Strings and characters\<close>

text \<open>
  A JavaScript string is a sequence of UTF-16 code units. The model works on
  \<^typ>\<open>string\<close>, whose characters are the code units U+0000 to U+00FF (Latin-1); the
  predicates below are the ECMAScript ones restricted to that range.
\<close>

definition is_digit :: "char \<Rightarrow> bool" where
  \<comment> \<open>the pattern class \<open>\d\<close>, and the digits of \<open>parseInt\<close> in base 10\<close>
  "is_digit c = (48 \<le> (of_char c :: nat) \<and> (of_char c :: nat) \<le> 57)"

definition is_lower_az :: "char \<Rightarrow> bool" where
  "is_lower_az c = (97 \<le> (of_char c :: nat) \<and> (of_char c :: nat) \<le> 122)"

definition is_upper_az :: "char \<Rightarrow> bool" where
  "is_upper_az c = (65 \<le> (of_char c :: nat) \<and> (of_char c :: nat) \<le> 90)"

definition is_word :: "char \<Rightarrow> bool" where
  \<comment> \<open>the pattern class \<open>\w\<close>: \<open>[A-Za-z0-9_]\<close>\<close>
  "is_word c = (is_lower_az c \<or> is_upper_az c \<or> is_digit c \<or> c = CHR ''_'')"

definition is_space :: "char \<Rightarrow> bool" where
  \<comment> \<open>white space and line terminators of ECMAScript below U+0100:
      TAB, LF, VT, FF, CR, SPACE and NBSP\<close>
  "is_space c = ((of_char c :: nat) \<in> {9, 10, 11, 12, 13, 32, 160})"

definition lower_char :: "char \<Rightarrow> char" where
  \<comment> \<open>\<open>toLowerCase\<close> on one code unit: A-Z and the Latin-1 capitals U+00C0 to U+00DE
      (the multiplication sign U+00D7 apart) move up by 32\<close>
  "lower_char c =
     (let n = (of_char c :: nat)
      in if (65 \<le> n \<and> n \<le> 90) \<or> (192 \<le> n \<and> n \<le> 222 \<and> n \<noteq> 215)
         then char_of (n + 32) else c)"

definition toLowerCase :: "string \<Rightarrow> string" where
  "toLowerCase s = map lower_char s"

definition canon :: "char \<Rightarrow> char" where
  \<comment> \<open>the canonical form a pattern with the \<open>i\<close> flag compares code units in: the upper
      case of a letter when that is one code unit of the same range (so U+00DF, U+00FF
      and U+00B5 stay as they are)\<close>
  "canon c =
     (let n = (of_char c :: nat)
      in if (97 \<le> n \<and> n \<le> 122) \<or> (224 \<le> n \<and> n \<le> 254 \<and> n \<noteq> 247)
         then char_of (n - 32) else c)"

definition trim :: "string \<Rightarrow> string" where
  \<comment> \<open>\<open>String.prototype.trim\<close>\<close>
  "trim s = rev (dropWhile is_space (rev (dropWhile is_space s)))"

definition bslash :: char where
  "bslash = CHR 0x5C"

definition digit_val :: "char \<Rightarrow> nat" where
  "digit_val c = of_char c - 48"

definition nat_of_digits :: "string \<Rightarrow> nat" where
  "nat_of_digits ds = foldl (\<lambda>a c. 10 * a + digit_val c) 0 ds"

fun show_nat :: "nat \<Rightarrow> string" where
  "show_nat n =
     (if n < 10 then [char_of (48 + n)]
      else show_nat (n div 10) @ [char_of (48 + n mod 10)])"

declare show_nat.simps [simp del]

fun split_on :: "char \<Rightarrow> string \<Rightarrow> string list" where
  \<comment> \<open>\<open>String.prototype.split\<close> with a one-character separator: \<open>''a..b''\<close> gives
      \<open>[''a'', '''', ''b'']\<close>, the empty string gives \<open>['''']\<close>\<close>
  "split_on d [] = [[]]"
| "split_on d (c # cs) =
     (if c = d then [] # split_on d cs
      else case split_on d cs of seg # segs \<Rightarrow> (c # seg) # segs | [] \<Rightarrow> [[c]])"

fun join :: "string \<Rightarrow> string list \<Rightarrow> string" where
  \<comment> \<open>\<open>Array.prototype.join\<close> on an array of strings\<close>
  "join sep [] = []"
| "join sep [x] = x"
| "join sep (x # y # ys) = x @ sep @ join sep (y # ys)"

section \<open>Values\<close>

text \<open>
  The values the functions receive: the JSON-like part of JavaScript's values. An object
  is a plain object (its prototype is \<^verbatim>\<open>Object.prototype\<close>), given as the list of its
  own enumerable properties in the order \<^verbatim>\<open>Object.entries\<close> lists them; a key occurs
  once in it, and every own property is a data property (no accessor, no proxy).
  \<open>Builtin f\<close> is the built-in constructor function named \<open>f\<close> (\<open>Object\<close>, \<open>String\<close>,
  \<open>Number\<close>, \<open>Boolean\<close>), which a read of the inherited property \<open>constructor\<close> gives;
  functions of the caller are not part of the model.

  A number is \<open>NaN\<close>, an infinity or \<open>Fin q\<close> for the exact rational \<open>q\<close> it denotes: the
  rounding of a decimal numeral to the nearest double, and the sign of zero, are not
  modelled.
\<close>

datatype jsnum = NaN | PosInf | NegInf | Fin rat

datatype jsval =
    Undefined
  | Null
  | Bool bool
  | Num jsnum
  | Str string
  | Arr "jsval list"
  | Obj "(string \<times> jsval) list"
  | Builtin string

text \<open>
  What a call ends with when it does not return: the two exceptions of the functions, and
  \<open>OutsideModel\<close>, which is no exception of JavaScript but marks an input on which the
  model of a built-in says nothing (pattern syntax beyond the fragment of
  \<open>parse_pattern\<close>, the text of a number that is not a safe integer, the value of an
  inherited method). The text of a \<open>TypeError\<close> the engine raises is the engine's and
  is given in short.
\<close>

datatype js_error = TypeError string | SyntaxError | OutsideModel

fun truthy :: "jsval \<Rightarrow> bool" where
  \<comment> \<open>\<open>Boolean(v)\<close>, the negation of \<open>!v\<close>\<close>
  "truthy Undefined = False"
| "truthy Null = False"
| "truthy (Bool b) = b"
| "truthy (Num n) = (n \<noteq> NaN \<and> n \<noteq> Fin 0)"
| "truthy (Str s) = (s \<noteq> [])"
| "truthy (Arr xs) = True"
| "truthy (Obj kvs) = True"
| "truthy (Builtin f) = True"

fun typeof :: "jsval \<Rightarrow> string" where
  "typeof Undefined = ''undefined''"
| "typeof Null = ''object''"
| "typeof (Bool b) = ''boolean''"
| "typeof (Num n) = ''number''"
| "typeof (Str s) = ''string''"
| "typeof (Arr xs) = ''object''"
| "typeof (Obj kvs) = ''object''"
| "typeof (Builtin f) = ''function''"

definition isNaN :: "jsnum \<Rightarrow> bool" where
  "isNaN n = (n = NaN)"

definition dflt :: "'a \<Rightarrow> 'a option \<Rightarrow> 'a" where
  \<comment> \<open>the default of a destructured option: \<open>const {x = d} = options\<close>\<close>
  "dflt d x = (case x of None \<Rightarrow> d | Some v \<Rightarrow> v)"

fun collect :: "('e + 'a) list \<Rightarrow> 'e + 'a list" where
  \<comment> \<open>the results of a loop or of \<open>Array.prototype.map\<close>: the first exception ends it\<close>
  "collect [] = Inr []"
| "collect (Inl e # rs) = Inl e"
| "collect (Inr v # rs) = (case collect rs of Inl e \<Rightarrow> Inl e | Inr vs \<Rightarrow> Inr (v # vs))"

definition index_of_key :: "string \<Rightarrow> nat option" where
  \<comment> \<open>the index a property key denotes: a decimal numeral with no leading zero\<close>
  "index_of_key k =
     (if k \<noteq> [] \<and> list_all is_digit k \<and> (k = ''0'' \<or> hd k \<noteq> CHR ''0'')
      then Some (nat_of_digits k) else None)"

text \<open>
  The property read \<open>v[k]\<close>. It throws on \<open>null\<close> and \<open>undefined\<close>. On another value
  it gives the own property of that name if there is one (an entry of an object, an
  element or the length of a string or an array), and otherwise looks the name up in the
  prototype chain: \<^verbatim>\<open>Object.prototype\<close> for an object, and before it
  \<^verbatim>\<open>String.prototype\<close>, \<^verbatim>\<open>Number.prototype\<close> or \<^verbatim>\<open>Boolean.prototype\<close>
  for a primitive. The names below are the string-keyed properties of these prototypes
  in ECMAScript 2024, Annex B included. The inherited \<open>constructor\<close> is the constructor
  function; the value of any other inherited property (a method, or the prototype
  itself for \<^verbatim>\<open>__proto__\<close>) is outside the model; a name found nowhere gives
  \<open>undefined\<close>.

  Of an array the own properties are modelled and \<^verbatim>\<open>Array.prototype\<close> is not
  (\<open>traverse\<close> reads no property of an array). Of a function, \<open>caller\<close> and \<open>arguments\<close>
  are the accessors of \<^verbatim>\<open>Function.prototype\<close>, which throw a \<open>TypeError\<close> on a
  built-in function; its other properties are not modelled.
\<close>

definition object_prototype_names :: "string list" where
  "object_prototype_names =
     [''constructor'', ''hasOwnProperty'', ''isPrototypeOf'', ''propertyIsEnumerable'',
      ''toLocaleString'', ''toString'', ''valueOf'', ''__proto__'', ''__defineGetter__'',
      ''__defineSetter__'', ''__lookupGetter__'', ''__lookupSetter__'']"

definition string_prototype_names :: "string list" where
  "string_prototype_names =
     [''at'', ''charAt'', ''charCodeAt'', ''codePointAt'', ''concat'', ''endsWith'',
      ''includes'', ''indexOf'', ''isWellFormed'', ''lastIndexOf'', ''localeCompare'',
      ''match'', ''matchAll'', ''normalize'', ''padEnd'', ''padStart'', ''repeat'',
      ''replace'', ''replaceAll'', ''search'', ''slice'', ''split'', ''startsWith'',
      ''substring'', ''toLocaleLowerCase'', ''toLocaleUpperCase'', ''toLowerCase'',
      ''toUpperCase'', ''toWellFormed'', ''trim'', ''trimEnd'', ''trimStart'',
      ''substr'', ''anchor'', ''big'', ''blink'', ''bold'', ''fixed'', ''fontcolor'',
      ''fontsize'', ''italics'', ''link'', ''small'', ''strike'', ''sub'', ''sup'',
      ''trimLeft'', ''trimRight'']"

definition number_prototype_names :: "string list" where
  "number_prototype_names = [''toExponential'', ''toFixed'', ''toPrecision'']"


definition inherited :: "string \<Rightarrow> string list \<Rightarrow> string \<Rightarrow> js_error + jsval" where
  \<comment> \<open>the read of a name that is no own property, on a value whose constructor is \<open>ctor\<close>
      and whose prototype chain holds \<open>names\<close>\<close>
  "inherited ctor names k =
     (if k = ''constructor'' then Inr (Builtin ctor)
      else if k \<in> set names then Inl OutsideModel
      else Inr Undefined)"

fun get_prop :: "jsval \<Rightarrow> string \<Rightarrow> js_error + jsval" where
  "get_prop Undefined k = Inl (TypeError ''Cannot read properties of undefined'')"
| "get_prop Null k = Inl (TypeError ''Cannot read properties of null'')"
| "get_prop (Obj kvs) k =
     (case map_of kvs k of
        Some v \<Rightarrow> Inr v
      | None \<Rightarrow> inherited ''Object'' object_prototype_names k)"
| "get_prop (Str s) k =
     (if k = ''length'' then Inr (Num (Fin (of_nat (length s))))
      else case index_of_key k of
             Some n \<Rightarrow> Inr (if n < length s then Str [s ! n] else Undefined)
           | None \<Rightarrow> inherited ''String'' (string_prototype_names @ object_prototype_names) k)"
| "get_prop (Num n) k = inherited ''Number'' (number_prototype_names @ object_prototype_names) k"
| "get_prop (Bool b) k = inherited ''Boolean'' object_prototype_names k"
| "get_prop (Arr xs) k =
     (if k = ''length'' then Inr (Num (Fin (of_nat (length xs))))
      else case index_of_key k of
             Some n \<Rightarrow> Inr (if n < length xs then xs ! n else Undefined)
           | None \<Rightarrow> Inl OutsideModel)"
| "get_prop (Builtin f) k =
     (if k = ''caller'' \<or> k = ''arguments''
      then Inl (TypeError ''caller and arguments may not be accessed on this function'')
      else Inl OutsideModel)"


fun flat_item :: "jsval \<Rightarrow> jsval list" where
  "flat_item (Arr xs) = xs"
| "flat_item v = [v]"

definition flat :: "jsval list \<Rightarrow> jsval list" where
  \<comment> \<open>\<open>Array.prototype.flat\<close> with its default depth 1\<close>
  "flat xs = concat (map flat_item xs)"

section \<open>Regular expressions\<close>

text \<open>
  Patterns as syntax trees, and the backtracking matcher of ECMAScript on them:
  \<open>ms i r s\<close> lists, in the order the matcher tries them, what is left of \<open>s\<close> after
  each way \<open>r\<close> matches a prefix of it, so its head is the match the engine reports at
  that position. \<open>i\<close> is the \<open>ignoreCase\<close> flag. A repetition does not take an iteration
  that matches the empty string.
\<close>

datatype re = Eps | Chr char | Cls "char \<Rightarrow> bool" | Seq re re | Alt re re | Star re

abbreviation Plus :: "re \<Rightarrow> re" where
  "Plus r \<equiv> Seq r (Star r)"

abbreviation Opt :: "re \<Rightarrow> re" where
  "Opt r \<equiv> Alt r Eps"

fun ms :: "bool \<Rightarrow> re \<Rightarrow> string \<Rightarrow> string list" where
  "ms i Eps s = [s]"
| "ms i (Chr c) s =
     (case s of [] \<Rightarrow> []
      | x # xs \<Rightarrow> if (if i then canon x = canon c else x = c) then [xs] else [])"
| "ms i (Cls P) s = (case s of [] \<Rightarrow> [] | x # xs \<Rightarrow> if P x then [xs] else [])"
| "ms i (Seq a b) s = concat (map (ms i b) (ms i a s))"
| "ms i (Alt a b) s = ms i a s @ ms i b s"
| "ms i (Star a) s =
     concat (map (\<lambda>s'. if length s' < length s then ms i (Star a) s' else []) (ms i a s)) @ [s]"

declare ms.simps(6) [simp del]

text \<open>
  A scan of the subject from left to right, as \<open>String.prototype.replace\<close> and
  \<open>String.prototype.match\<close> do it: at each position the pattern is tried; a match is
  recorded and the scan goes on behind it (one character further after an empty match);
  a character no match starts at is kept. Without the \<open>g\<close> flag the scan ends with the
  first match.
\<close>

datatype tok = Lit char | Match string

fun scan :: "bool \<Rightarrow> bool \<Rightarrow> re \<Rightarrow> string \<Rightarrow> tok list" where
  "scan g i r [] = (case ms i r [] of [] \<Rightarrow> [] | rest # _ \<Rightarrow> [Match []])"
| "scan g i r (c # cs) =
     (case ms i r (c # cs) of
        [] \<Rightarrow> Lit c # scan g i r cs
      | rest # _ \<Rightarrow>
          if length rest < Suc (length cs)
          then Match (take (Suc (length cs) - length rest) (c # cs)) #
               (if g then scan g i r rest else map Lit rest)
          else Match [] # Lit c # (if g then scan g i r cs else map Lit cs))"

fun emit :: "(string \<Rightarrow> string) \<Rightarrow> tok \<Rightarrow> string" where
  "emit f (Lit c) = [c]"
| "emit f (Match m) = f m"

record regex =
  rx_source :: re
  rx_global :: bool
  rx_ignoreCase :: bool

definition replace :: "regex \<Rightarrow> (string \<Rightarrow> string) \<Rightarrow> string \<Rightarrow> string" where
  \<comment> \<open>\<open>s.replace(regex, f)\<close> with a replacer function of the matched text\<close>
  "replace rx f s = concat (map (emit f) (scan (rx_global rx) (rx_ignoreCase rx) (rx_source rx) s))"

fun match_text :: "tok \<Rightarrow> string list" where
  "match_text (Lit c) = []"
| "match_text (Match m) = [m]"

definition match :: "regex \<Rightarrow> string \<Rightarrow> string list option" where
  \<comment> \<open>\<open>s.match(regex)\<close> for a regex with the \<open>g\<close> flag: the texts of all matches, or
      \<open>null\<close> when there is none\<close>
  "match rx s =
     (let found = concat (map match_text (scan True (rx_ignoreCase rx) (rx_source rx) s))
      in if found = [] then None else Some found)"

subsection \<open>The constructor \<open>RegExp\<close>\<close>

text \<open>
  The pattern syntax \<open>new RegExp(pattern, flags)\<close> is modelled on: alternation,
  characters, the escapes of the syntax characters and of the slash, \<open>\d\<close>, the dot, groups
  (capturing or not: the functions read no capture) and the greedy quantifiers \<open>*\<close>,
  \<open>+\<close> and \<open>?\<close>. A quantifier with nothing to repeat, an unmatched parenthesis and a
  backslash at the end are syntax errors, as in ECMAScript. Classes, braces, anchors, lazy
  quantifiers, look-around and the other escapes are outside the model.

  The parser reads the pattern from left to right with a stack of open groups; a frame
  holds the finished alternatives of its group, the terms of the open alternative (both
  latest first) and whether the last term already carries a quantifier.
\<close>

definition is_syntax_char :: "char \<Rightarrow> bool" where
  \<comment> \<open>the syntax characters of patterns; the class of \<open>escapeRegexStr\<close> lists the same\<close>
  "is_syntax_char c = (c \<in> set ''.*+?^${}()|[]'' \<or> c = bslash)"

fun seq_list :: "re list \<Rightarrow> re" where
  "seq_list [] = Eps"
| "seq_list (t # ts) = Seq t (seq_list ts)"

fun alt_list :: "re list \<Rightarrow> re" where
  "alt_list [] = Eps"
| "alt_list [a] = a"
| "alt_list (a # b # bs) = Alt a (alt_list (b # bs))"

type_synonym frame = "re list \<times> re list \<times> bool"

fun close_frame :: "frame \<Rightarrow> re" where
  "close_frame (alts, cur, q) = alt_list (rev (seq_list (rev cur) # alts))"

definition quantify :: "char \<Rightarrow> re \<Rightarrow> re" where
  "quantify c t = (if c = CHR ''*'' then Star t else if c = CHR ''+'' then Plus t else Opt t)"

fun parse_pattern :: "frame list \<Rightarrow> string \<Rightarrow> js_error + re" where
  "parse_pattern [] s = Inl SyntaxError"
| "parse_pattern [fr] [] = Inr (close_frame fr)"
| "parse_pattern (fr # gr # up) [] = Inl SyntaxError"
| "parse_pattern ((alts, cur, q) # up) (c # cs) =
     (if c = CHR ''|'' then parse_pattern ((seq_list (rev cur) # alts, [], False) # up) cs
      else if c = CHR ''('' then
        (if take 2 cs = ''?:'' then parse_pattern (([], [], False) # (alts, cur, q) # up) (drop 2 cs)
         else if take 1 cs = ''?'' then Inl OutsideModel
         else parse_pattern (([], [], False) # (alts, cur, q) # up) cs)
      else if c = CHR '')'' then
        (case up of
           [] \<Rightarrow> Inl SyntaxError
         | (alts', cur', q') # up' \<Rightarrow>
             parse_pattern ((alts', close_frame (alts, cur, q) # cur', False) # up') cs)
      else if c \<in> set ''*+?'' then
        (case cur of
           [] \<Rightarrow> Inl SyntaxError
         | t # ts \<Rightarrow>
             if q then (if c = CHR ''?'' then Inl OutsideModel else Inl SyntaxError)
             else parse_pattern ((alts, quantify c t # ts, True) # up) cs)
      else if c = bslash then
        (case cs of
           [] \<Rightarrow> Inl SyntaxError
         | e # cs' \<Rightarrow>
             if e = CHR ''d'' then parse_pattern ((alts, Cls is_digit # cur, False) # up) cs'
             else if is_syntax_char e \<or> e = CHR ''/''
             then parse_pattern ((alts, Chr e # cur, False) # up) cs'
             else Inl OutsideModel)
      else if c = CHR ''.'' then
        parse_pattern ((alts, Cls (\<lambda>x. x \<noteq> CHR 0x0A \<and> x \<noteq> CHR 0x0D) # cur, False) # up) cs
      else if c \<in> set ''[]{}^$'' then Inl OutsideModel
      else parse_pattern ((alts, Chr c # cur, False) # up) cs)"

definition RegExp :: "string \<Rightarrow> string \<Rightarrow> js_error + regex" where
  \<comment> \<open>\<open>new RegExp(pattern, flags)\<close>, for the flags the functions build: \<open>g\<close> and \<open>i\<close>\<close>
  "RegExp pattern flags =
     (case parse_pattern [([], [], False)] pattern of
        Inl e \<Rightarrow> Inl e
      | Inr r \<Rightarrow>
          Inr \<lparr>rx_source = r, rx_global = (CHR ''g'' \<in> set flags), rx_ignoreCase = (CHR ''i'' \<in> set flags)\<rparr>)"

fun tok_text :: "tok \<Rightarrow> string" where
  \<comment> \<open>the part of the subject a token stands for\<close>
  "tok_text (Lit c) = [c]"
| "tok_text (Match m) = m"

section \<open>\<open>slugify\<close>\<close>

text \<open>
  \<^verbatim>\<open>text.toLowerCase().replace(/[^\w ]+/g, "").replace(/ +/g, "-")\<close>; the two
  pattern literals are written as their syntax trees.
\<close>

definition slugify :: "string \<Rightarrow> string" where
  "slugify text =
     replace \<lparr>rx_source = Plus (Cls (\<lambda>c. c = CHR '' '')), rx_global = True, rx_ignoreCase = False\<rparr>
       (\<lambda>_. ''-'')
       (replace
          \<lparr>rx_source = Plus (Cls (\<lambda>c. \<not> (is_word c \<or> c = CHR '' ''))), rx_global = True,
           rx_ignoreCase = False\<rparr>
          (\<lambda>_. [])
          (toLowerCase text))"

definition slug_char :: "char \<Rightarrow> bool" where
  \<comment> \<open>the characters of \<open>[a-z0-9_-]\<close>\<close>
  "slug_char c = (is_lower_az c \<or> is_digit c \<or> c = CHR ''_'' \<or> c = CHR ''-'')"

section \<open>\<open>resolveObjectPath\<close>\<close>

text \<open>
  The inner function \<open>traverse\<close>. Its property read \<open>current[firstKey]\<close> is the one
  place of the function that can throw, so the result is a sum. The destructuring
  \<open>[firstKey, ...restKeys] = keyLeft\<close> of an empty list gives \<open>undefined\<close> and \<open>[]\<close>, and
  the read is then of the property named \<open>undefined\<close>.
\<close>

fun traverse :: "jsval \<Rightarrow> string list \<Rightarrow> js_error + jsval" where
  "traverse Null keyLeft = Inr Undefined"
| "traverse Undefined keyLeft = Inr Undefined"
| "traverse (Arr items) keyLeft =
     (case collect (map (\<lambda>item. traverse item keyLeft) items) of
        Inl e \<Rightarrow> Inl e
      | Inr mapped \<Rightarrow>
          (let results = filter truthy mapped
           in Inr (if results \<noteq> [] then Arr (flat results) else Undefined)))"
| "traverse current [] =
     (case get_prop current ''undefined'' of
        Inl e \<Rightarrow> Inl e
      | Inr next \<Rightarrow> Inr next)"
| "traverse current (firstKey # restKeys) =
     (case get_prop current firstKey of
        Inl e \<Rightarrow> Inl e
      | Inr next \<Rightarrow>
          if next = Undefined then Inr Undefined
          else if restKeys = [] then Inr next
          else traverse next restKeys)"

definition resolveObjectPath :: "jsval \<Rightarrow> string \<Rightarrow> js_error + jsval" where
  "resolveObjectPath data path =
     (if \<not> truthy data then Inr Undefined
      else if path = [] then Inr data
      else let keys = split_on CHR ''.'' path
           in if list_ex (\<lambda>key. key = []) keys then Inr Undefined
              else traverse data keys)"

text \<open>
  The fan-out over a sequence as the specification words it, to compare \<open>traverse\<close>
  with: of the results of the elements, the falsy ones are discarded, the rest is
  flattened one level, and the result is "not found" if nothing remains.
\<close>

definition fan_out_spec :: "jsval list \<Rightarrow> jsval" where
  "fan_out_spec mapped =
     (let flattened = flat (filter truthy mapped)
      in if flattened = [] then Undefined else Arr flattened)"

section \<open>\<open>transformEmptyValues\<close>\<close>

text \<open>
  The options of the function. A field that is absent (or \<open>undefined\<close>) takes its default:
  \<open>None\<close> stands for it, and for \<open>replaceWith\<close> the value \<open>Undefined\<close> does.
\<close>

record ConversionOptions =
  replaceWith :: jsval
  trimStrings :: "bool option"
  processEmptyArrays :: "bool option"
  isEmptyFn :: "(jsval \<Rightarrow> bool) option"

definition is_object :: "jsval \<Rightarrow> bool" where
  \<comment> \<open>\<open>typeof v === "object" && v !== null\<close>\<close>
  "is_object v = (typeof v = ''object'' \<and> v \<noteq> Null)"

definition replacement :: "ConversionOptions \<Rightarrow> jsval" where
  \<comment> \<open>the destructured \<open>replaceWith = null\<close>\<close>
  "replacement options = (if replaceWith options = Undefined then Null else replaceWith options)"

definition isEmpty :: "ConversionOptions \<Rightarrow> jsval \<Rightarrow> bool" where
  "isEmpty options value =
     (case isEmptyFn options of
        Some f \<Rightarrow> f value
      | None \<Rightarrow>
          (case value of
             Str s \<Rightarrow> if dflt True (trimStrings options) then trim s = [] else s = []
           | Arr xs \<Rightarrow> if dflt False (processEmptyArrays options) then length xs = 0 else False
           | _ \<Rightarrow> False))"

text \<open>
  The function validates its input, tests it for emptiness and then maps over the
  elements of an array or the entries of an object, calling itself on the elements that
  are objects. The loop over \<open>Object.entries(input)\<close> assigns each key once, in order, so
  the result has the entries of the input with new values. (An own key \<^verbatim>\<open>__proto__\<close>,
  whose assignment sets the prototype of the result instead of a property, is not part
  of the model.) The predicate \<open>isEmptyFn\<close> is a total function of the value: a callback
  that throws or keeps state is not modelled.
\<close>

fun transformEmptyValues :: "jsval \<Rightarrow> ConversionOptions \<Rightarrow> js_error + jsval" where
  "transformEmptyValues (Arr items) options =
     (if isEmpty options (Arr items) then Inr (replacement options)
      else case collect (map (\<lambda>item.
                  if is_object item then transformEmptyValues item options
                  else Inr (if isEmpty options item then replacement options else item)) items) of
             Inl e \<Rightarrow> Inl e
           | Inr result \<Rightarrow> Inr (Arr result))"
| "transformEmptyValues (Obj entries) options =
     (if isEmpty options (Obj entries) then Inr (replacement options)
      else case collect (map (\<lambda>(key, value).
                  case (if is_object value then transformEmptyValues value options
                        else Inr (if isEmpty options value then replacement options else value)) of
                    Inl e \<Rightarrow> Inl e
                  | Inr v \<Rightarrow> Inr (key, v)) entries) of
             Inl e \<Rightarrow> Inl e
           | Inr result \<Rightarrow> Inr (Obj result))"
| "transformEmptyValues input options = Inl (TypeError ''Input must be an object or array'')"

definition default_conversion :: ConversionOptions where
  \<comment> \<open>the options object \<open>{}\<close>\<close>
  "default_conversion =
     \<lparr>replaceWith = Undefined, trimStrings = None, processEmptyArrays = None, isEmptyFn = None\<rparr>"

section \<open>\<open>extractNumber\<close>\<close>

text \<open>
  The number parsers. \<open>parseInt(s, 10)\<close> skips leading white space, reads a sign and
  the longest run of digits, and gives \<open>NaN\<close> when there is no digit. \<open>parseFloat(s)\<close>
  skips leading white space and reads the longest prefix that is a decimal literal: a
  sign, then \<open>Infinity\<close> or digits with an optional fraction and an optional exponent.
\<close>

definition parseInt10 :: "string \<Rightarrow> jsnum" where
  "parseInt10 s =
     (let t = dropWhile is_space s;
          neg = (t \<noteq> [] \<and> hd t = CHR ''-'');
          u = (if t \<noteq> [] \<and> (hd t = CHR ''-'' \<or> hd t = CHR ''+'') then tl t else t);
          ds = takeWhile is_digit u
      in if ds = [] then NaN
         else Fin (if neg then - of_nat (nat_of_digits ds) else of_nat (nat_of_digits ds)))"

definition exponent_of :: "string \<Rightarrow> rat" where
  \<comment> \<open>the factor of an exponent part \<open>e\<close>, \<open>E\<close> with an optional sign and at least one
      digit at the head of the string; 1 when there is none\<close>
  "exponent_of r =
     (if r \<noteq> [] \<and> (hd r = CHR ''e'' \<or> hd r = CHR ''E'') then
        (let e1 = tl r;
             eneg = (e1 \<noteq> [] \<and> hd e1 = CHR ''-'');
             e2 = (if e1 \<noteq> [] \<and> (hd e1 = CHR ''-'' \<or> hd e1 = CHR ''+'') then tl e1 else e1);
             eds = takeWhile is_digit e2
         in if eds = [] then 1
            else if eneg then 1 / 10 ^ nat_of_digits eds else 10 ^ nat_of_digits eds)
      else 1)"

definition decimal_literal :: "bool \<Rightarrow> string \<Rightarrow> jsnum" where
  \<comment> \<open>the digits, the fraction and the exponent at the head of \<open>u\<close>, behind a sign\<close>
  "decimal_literal neg u =
     (let ip = takeWhile is_digit u;
          r1 = dropWhile is_digit u;
          dot = (r1 \<noteq> [] \<and> hd r1 = CHR ''.'');
          fp = (if dot then takeWhile is_digit (tl r1) else []);
          r2 = (if dot then dropWhile is_digit (tl r1) else r1);
          q = (of_nat (nat_of_digits ip) + of_nat (nat_of_digits fp) / 10 ^ length fp)
                * exponent_of r2
      in if ip = [] \<and> fp = [] then NaN else Fin (if neg then - q else q))"

definition parseFloat :: "string \<Rightarrow> jsnum" where
  "parseFloat s =
     (let t = dropWhile is_space s;
          neg = (t \<noteq> [] \<and> hd t = CHR ''-'');
          u = (if t \<noteq> [] \<and> (hd t = CHR ''-'' \<or> hd t = CHR ''+'') then tl t else t)
      in if prefix ''Infinity'' u then (if neg then NegInf else PosInf)
         else decimal_literal neg u)"

record ExtractNumberOptions =
  allowDecimals :: "bool option"
  allowNegative :: "bool option"
  defaultValue :: "jsnum option"

definition number_pattern :: "bool \<Rightarrow> bool \<Rightarrow> string" where
  \<comment> \<open>the pattern text the function joins from its three parts\<close>
  "number_pattern allowNeg allowDec =
     join [] [if allowNeg then ''-?'' else [],
              bslash # ''d+'',
              if allowDec then ''(?:'' @ bslash # ''.'' @ bslash # ''d+)?'' else []]"

definition extractNumber :: "jsval \<Rightarrow> ExtractNumberOptions \<Rightarrow> js_error + jsnum" where
  "extractNumber str options =
     (case str of
        Str s \<Rightarrow>
          (let allowDec = dflt False (allowDecimals options);
               allowNeg = dflt False (allowNegative options);
               dv = dflt (Fin 0) (defaultValue options)
           in if trim s = [] then Inr dv
              else
                (case RegExp (number_pattern allowNeg allowDec) ''g'' of
                   Inl e \<Rightarrow> Inl e
                 | Inr regex \<Rightarrow>
                     (case match regex s of
                        None \<Rightarrow> Inr dv
                      | Some matches \<Rightarrow>
                          (let number = join [] matches;
                               result = (if allowDec then parseFloat number
                                         else parseInt10 number)
                           in Inr (if isNaN result then dv else result)))))
      | _ \<Rightarrow> Inl (TypeError ''Input must be a string''))"

definition default_extract :: ExtractNumberOptions where
  \<comment> \<open>the options object \<open>{}\<close>\<close>
  "default_extract = \<lparr>allowDecimals = None, allowNegative = None, defaultValue = None\<rparr>"

text \<open>
  The syntax tree of \<open>number_pattern\<close>, and the texts the specification says the
  pattern matches: an optional minus sign if negatives are allowed, one or more digits,
  and an optional fraction (a dot and one or more digits) if decimals are allowed.
\<close>

definition number_re :: "bool \<Rightarrow> bool \<Rightarrow> re" where
  "number_re allowNeg allowDec =
     seq_list ((if allowNeg then [Opt (Chr CHR ''-'')] else []) @
               [Plus (Cls is_digit)] @
               (if allowDec then [Opt (seq_list [Chr CHR ''.'', Plus (Cls is_digit)])] else []))"

definition is_unsigned_text :: "bool \<Rightarrow> string \<Rightarrow> bool" where
  "is_unsigned_text allowDec u =
     (let ip = takeWhile is_digit u;
          r = dropWhile is_digit u
      in ip \<noteq> [] \<and>
         (r = [] \<or> (allowDec \<and> hd r = CHR ''.'' \<and> tl r \<noteq> [] \<and> list_all is_digit (tl r))))"

definition is_number_text :: "bool \<Rightarrow> bool \<Rightarrow> string \<Rightarrow> bool" where
  "is_number_text allowNeg allowDec m =
     is_unsigned_text allowDec (if allowNeg \<and> m \<noteq> [] \<and> hd m = CHR ''-'' then tl m else m)"

text \<open>
  The longest prefix of a text that is a number text (with a sign allowed), and the number
  such a text denotes.
\<close>

definition unsigned_prefix :: "bool \<Rightarrow> string \<Rightarrow> string" where
  "unsigned_prefix allowDec u =
     (let ip = takeWhile is_digit u;
          r = dropWhile is_digit u;
          fp = (if allowDec \<and> r \<noteq> [] \<and> hd r = CHR ''.'' then takeWhile is_digit (tl r) else [])
      in ip @ (if fp = [] then [] else CHR ''.'' # fp))"

definition numeric_prefix :: "bool \<Rightarrow> string \<Rightarrow> string" where
  "numeric_prefix allowDec t =
     (if t \<noteq> [] \<and> hd t = CHR ''-'' then CHR ''-'' # unsigned_prefix allowDec (tl t)
      else unsigned_prefix allowDec t)"

definition unsigned_value :: "string \<Rightarrow> rat" where
  "unsigned_value p =
     (let ip = takeWhile is_digit p;
          r = dropWhile is_digit p;
          fp = (if r = [] then [] else tl r)
      in of_nat (nat_of_digits ip) + of_nat (nat_of_digits fp) / 10 ^ length fp)"

definition number_value :: "string \<Rightarrow> rat" where
  "number_value p =
     (if p \<noteq> [] \<and> hd p = CHR ''-'' then - unsigned_value (tl p) else unsigned_value p)"

section \<open>\<open>replaceString\<close>\<close>

text \<open>
  \<open>String(value)\<close> for the values of a replacement map. The text of a number is
  modelled for \<open>NaN\<close>, the infinities and the safe integers; other numbers, and arrays,
  objects and functions as replacement values, are outside the model.
\<close>

definition number_to_string :: "jsnum \<Rightarrow> js_error + string" where
  "number_to_string n =
     (case n of
        NaN \<Rightarrow> Inr ''NaN''
      | PosInf \<Rightarrow> Inr ''Infinity''
      | NegInf \<Rightarrow> Inr ''-Infinity''
      | Fin q \<Rightarrow>
          if q = of_int \<lfloor>q\<rfloor> \<and> \<bar>q\<bar> \<le> 9007199254740991
          then Inr ((if q < 0 then ''-'' else []) @ show_nat (nat \<bar>\<lfloor>q\<rfloor>\<bar>))
          else Inl OutsideModel)"

fun String_of :: "jsval \<Rightarrow> js_error + string" where
  "String_of (Str s) = Inr s"
| "String_of (Num n) = number_to_string n"
| "String_of (Bool b) = Inr (if b then ''true'' else ''false'')"
| "String_of Null = Inr ''null''"
| "String_of Undefined = Inr ''undefined''"
| "String_of (Arr xs) = Inl OutsideModel"
| "String_of (Obj kvs) = Inl OutsideModel"
| "String_of (Builtin f) = Inl OutsideModel"

fun entries_of :: "jsval \<Rightarrow> (string \<times> jsval) list" where
  \<comment> \<open>\<open>Object.entries\<close>: the entries of an object, the indexed elements of an array\<close>
  "entries_of (Obj kvs) = kvs"
| "entries_of (Arr xs) = zip (map show_nat [0 ..< length xs]) xs"
| "entries_of v = []"

definition stringify_entry :: "string \<times> jsval \<Rightarrow> js_error + (string \<times> string)" where
  \<comment> \<open>one step of the \<open>reduce\<close> that builds \<open>stringReplacements\<close>\<close>
  "stringify_entry =
     (\<lambda>(key, value). case String_of value of Inl e \<Rightarrow> Inl e | Inr v \<Rightarrow> Inr (key, v))"

record ReplaceOptions =
  ignoreCase :: "bool option"
  replaceAll :: "bool option"
  escapeRegex :: "bool option"

definition escapeRegexStr :: "bool \<Rightarrow> string \<Rightarrow> string" where
  \<comment> \<open>\<open>str.replace(/[.*+?^${}()|[\]\\]/g, "\\$&")\<close>: the class of the pattern literal holds
      the syntax characters, and the replacement is a backslash and the matched text\<close>
  "escapeRegexStr escape str =
     (if escape
      then replace \<lparr>rx_source = Cls is_syntax_char, rx_global = True, rx_ignoreCase = False\<rparr>
             (\<lambda>matched. bslash # matched) str
      else str)"

definition replacer :: "bool \<Rightarrow> (string \<times> string) list \<Rightarrow> string \<Rightarrow> string" where
  \<comment> \<open>the callback given to \<open>text.replace\<close>: a key that is not found, or is empty, leaves
      the matched text; a value that is not found is \<open>undefined\<close> and is written as such
      (the read \<open>stringReplacements[key]\<close> is of the own properties only)\<close>
  "replacer ic stringReplacements matched =
     (case (if ic then find (\<lambda>k. toLowerCase k = toLowerCase matched) (map fst stringReplacements)
            else Some matched) of
        None \<Rightarrow> matched
      | Some key \<Rightarrow>
          if key = [] then matched
          else (case map_of stringReplacements key of None \<Rightarrow> ''undefined'' | Some v \<Rightarrow> v))"

definition replaceString :: "jsval \<Rightarrow> jsval \<Rightarrow> ReplaceOptions \<Rightarrow> js_error + string" where
  "replaceString text replacements options =
     (case text of
        Str t \<Rightarrow>
          if \<not> truthy replacements \<or> typeof replacements \<noteq> ''object''
          then Inl (TypeError ''Replacements must be an object'')
          else if t = [] \<or> length (map fst (entries_of replacements)) = 0 then Inr t
          else
            (let ic = dflt True (ignoreCase options);
                 all = dflt True (replaceAll options);
                 esc = dflt True (escapeRegex options)
             in case collect (map stringify_entry (entries_of replacements)) of
                  Inl e \<Rightarrow> Inl e
                | Inr stringReplacements \<Rightarrow>
                    (let pattern = join ''|'' (map (escapeRegexStr esc) (map fst stringReplacements));
                         flags = (if all then ''g'' else []) @ (if ic then ''i'' else [])
                     in case RegExp pattern flags of
                          Inl e \<Rightarrow> Inl e
                        | Inr regex \<Rightarrow> Inr (replace regex (replacer ic stringReplacements) t)))
      | _ \<Rightarrow> Inl (TypeError ''Input text must be a string''))"

definition default_replace :: ReplaceOptions where
  \<comment> \<open>the options object \<open>{}\<close>\<close>
  "default_replace = \<lparr>ignoreCase = None, replaceAll = None, escapeRegex = None\<rparr>"

text \<open>
  Notions the theorems about \<open>replaceString\<close> are stated with: the text an escaped
  character is written as, the pattern of a key taken literally, and what it means for
  a key to stand at the head of a subject, with or without regard to case.
\<close>

definition escape_char :: "char \<Rightarrow> string" where
  "escape_char c = (if is_syntax_char c then [bslash, c] else [c])"

definition literal :: "string \<Rightarrow> re" where
  "literal k = seq_list (map Chr k)"

fun literal_at :: "bool \<Rightarrow> string \<Rightarrow> string \<Rightarrow> bool" where
  "literal_at i [] s = True"
| "literal_at i (c # k) [] = False"
| "literal_at i (c # k) (x # s) = ((if i then canon x = canon c else x = c) \<and> literal_at i k s)"

chapter \<open>Lemmas and theorems\<close>

section \<open>The matcher and the scan\<close>

lemma ms_Star_mem:
  "x \<in> set (ms i (Star a) s) \<longleftrightarrow>
     x = s \<or> (\<exists>y \<in> set (ms i a s). length y < length s \<and> x \<in> set (ms i (Star a) y))"
  by (subst ms.simps(6)) auto

lemma ms_Star_nonempty: "ms i (Star a) s \<noteq> []"
  by (subst ms.simps(6)) simp

text \<open>Whatever a pattern leaves is a suffix of the subject.\<close>

lemma ms_suffix: "x \<in> set (ms i r s) \<Longrightarrow> suffix x s"
proof (induction i r s arbitrary: x rule: ms.induct)
  case (4 i a b s)
  then obtain y where y: "y \<in> set (ms i a s)" "x \<in> set (ms i b y)" by auto
  from "4.IH"(1) [OF y(1)] "4.IH"(2) [OF y(1) y(2)] show ?case
    by (rule suffix_order.trans [rotated])
next
  case (6 i a s)
  show ?case
  proof (cases "x = s")
    case True
    then show ?thesis by simp
  next
    case False
    with "6.prems" obtain y where
      y: "y \<in> set (ms i a s)" "length y < length s" "x \<in> set (ms i (Star a) y)"
      using ms_Star_mem [of x i a s] by blast
    from "6.IH"(2) [OF y(1) y(2) y(3)] "6.IH"(1) [OF y(1)] show ?thesis
      by (rule suffix_order.trans)
  qed
qed (auto split: list.splits if_splits simp: suffix_Cons)

lemma ms_length_le: "x \<in> set (ms i r s) \<Longrightarrow> length x \<le> length s"
  by (drule ms_suffix) (rule suffix_length_le)

text \<open>
  A character the global scan keeps is one at which the pattern fails, or matches the
  empty string only.
\<close>

lemma scan_Lit:
  "g \<Longrightarrow> Lit c \<in> set (scan g i r s) \<Longrightarrow>
     \<exists>cs. suffix (c # cs) s \<and>
       (ms i r (c # cs) = [] \<or> \<not> length (hd (ms i r (c # cs))) < Suc (length cs))"
proof (induction g i r s rule: scan.induct)
  case (1 g i r)
  then show ?case by (auto split: list.splits)
next
  case (2 g i r d ds)
  note IH = "2.IH" and prems = "2.prems"
  show ?case
  proof (cases "ms i r (d # ds)")
    case Nil
    show ?thesis
    proof (cases "c = d")
      case True
      with Nil show ?thesis by auto
    next
      case False
      with prems Nil have "Lit c \<in> set (scan g i r ds)" by simp
      from IH(1) [OF Nil prems(1) this] show ?thesis
        by (auto simp: suffix_Cons)
    qed
  next
    case (Cons rest more)
    then have suf: "suffix rest (d # ds)"
      using ms_suffix [of rest i r "d # ds"] by simp
    show ?thesis
    proof (cases "length rest < Suc (length ds)")
      case True
      with prems Cons have "Lit c \<in> set (scan g i r rest)" by simp
      from IH(2) [OF Cons True prems(1) prems(1) this] obtain es where
        "suffix (c # es) rest"
        "ms i r (c # es) = [] \<or> \<not> length (hd (ms i r (c # es))) < Suc (length es)"
        by blast
      with suf show ?thesis by (blast intro: suffix_order.trans)
    next
      case False
      show ?thesis
      proof (cases "c = d")
        case True
        with Cons False show ?thesis by auto
      next
        case ne: False
        with prems Cons False have "Lit c \<in> set (scan g i r ds)" by simp
        from IH(3) [OF Cons False prems(1) prems(1) this] show ?thesis
          by (auto simp: suffix_Cons)
      qed
    qed
  qed
qed

lemma ms_Plus_Cls:
  assumes "P c"
  shows "ms i (Plus (Cls P)) (c # cs) \<noteq> [] \<and>
         length (hd (ms i (Plus (Cls P)) (c # cs))) < Suc (length cs)"
proof -
  from assms have eq: "ms i (Plus (Cls P)) (c # cs) = ms i (Star (Cls P)) cs" by simp
  have ne: "ms i (Star (Cls P)) cs \<noteq> []" by (rule ms_Star_nonempty)
  then have "hd (ms i (Star (Cls P)) cs) \<in> set (ms i (Star (Cls P)) cs)" by simp
  then have "length (hd (ms i (Star (Cls P)) cs)) \<le> length cs" by (rule ms_length_le)
  with eq ne show ?thesis by simp
qed

text \<open>A global scan for a run of characters of a class keeps no character of the class.\<close>

lemma scan_Plus_Cls_Lit:
  assumes "Lit c \<in> set (scan True i (Plus (Cls P)) s)"
  shows "c \<in> set s \<and> \<not> P c"
proof -
  from scan_Lit [OF _ assms] obtain cs where
    cs: "suffix (c # cs) s"
    "ms i (Plus (Cls P)) (c # cs) = [] \<or>
     \<not> length (hd (ms i (Plus (Cls P)) (c # cs))) < Suc (length cs)"
    by blast
  from cs(1) have "c \<in> set s" by (auto simp: suffix_def)
  moreover from cs(2) ms_Plus_Cls [of P c i cs] have "\<not> P c" by blast
  ultimately show ?thesis by simp
qed

lemma replace_chars:
  assumes "c \<in> set (replace rx f s)"
  shows "(\<exists>m. c \<in> set (f m)) \<or> Lit c \<in> set (scan (rx_global rx) (rx_ignoreCase rx) (rx_source rx) s)"
proof -
  from assms obtain t where
    t: "t \<in> set (scan (rx_global rx) (rx_ignoreCase rx) (rx_source rx) s)" "c \<in> set (emit f t)"
    by (auto simp: replace_def)
  show ?thesis
  proof (cases t)
    case (Lit d)
    with t show ?thesis by auto
  next
    case (Match m)
    with t show ?thesis by auto
  qed
qed

text \<open>The tokens of a scan spell the subject.\<close>

lemma map_Lit_text: "concat (map tok_text (map Lit xs)) = xs"
  by (induction xs) auto

lemma scan_text: "concat (map tok_text (scan g i r s)) = s"
proof (induction g i r s rule: scan.induct)
  case (1 g i r)
  then show ?case by (simp split: list.splits)
next
  case (2 g i r c cs)
  show ?case
  proof (cases "ms i r (c # cs)")
    case Nil
    with 2 show ?thesis by simp
  next
    case (Cons rest more)
    then have "suffix rest (c # cs)" using ms_suffix [of rest i r "c # cs"] by simp
    then obtain m where m: "c # cs = m @ rest" by (auto simp: suffix_def)
    then have tk: "take (Suc (length cs) - length rest) (c # cs) = m"
      by (metis append_eq_conv_conj length_Cons length_append add_diff_cancel_right')
    show ?thesis
    proof (cases "length rest < Suc (length cs)")
      case True
      have sc: "scan g i r (c # cs) = Match m # (if g then scan g i r rest else map Lit rest)"
        using Cons True tk by simp
      have "concat (map tok_text (if g then scan g i r rest else map Lit rest)) = rest"
        using "2.IH"(2) [OF Cons True] map_Lit_text by (cases g) simp_all
      then have "concat (map tok_text (scan g i r (c # cs))) = m @ rest"
        unfolding sc by simp
      with m show ?thesis by simp
    next
      case False
      have sc: "scan g i r (c # cs) = Match [] # Lit c # (if g then scan g i r cs else map Lit cs)"
        using Cons False by simp
      have "concat (map tok_text (if g then scan g i r cs else map Lit cs)) = cs"
        using "2.IH"(3) [OF Cons False] map_Lit_text by (cases g) simp_all
      then show ?thesis unfolding sc by simp
    qed
  qed
qed

lemma scan_Match:
  "Match m \<in> set (scan g i r s) \<Longrightarrow>
     \<exists>t. suffix t s \<and> ms i r t \<noteq> [] \<and> t = m @ hd (ms i r t)"
proof (induction g i r s rule: scan.induct)
  case (1 g i r)
  then have ne: "ms i r [] \<noteq> []" and m: "m = []" by (auto split: list.splits)
  from ne have "hd (ms i r []) \<in> set (ms i r [])" by simp
  then have "hd (ms i r []) = []" using ms_suffix by fastforce
  with ne m show ?case by auto
next
  case (2 g i r c cs)
  show ?case
  proof (cases "ms i r (c # cs)")
    case Nil
    with "2.prems" have "Match m \<in> set (scan g i r cs)" by simp
    from "2.IH"(1) [OF Nil this] show ?thesis by (auto simp: suffix_Cons)
  next
    case (Cons rest more)
    then have suf: "suffix rest (c # cs)" using ms_suffix [of rest i r "c # cs"] by simp
    then obtain m' where m': "c # cs = m' @ rest" by (auto simp: suffix_def)
    then have tk: "take (Suc (length cs) - length rest) (c # cs) = m'"
      by (metis append_eq_conv_conj length_Cons length_append add_diff_cancel_right')
    have here: "\<exists>t. suffix t (c # cs) \<and> ms i r t \<noteq> [] \<and> t = m' @ hd (ms i r t)"
      using Cons m' by (intro exI [of _ "c # cs"]) simp
    show ?thesis
    proof (cases "length rest < Suc (length cs)")
      case True
      with "2.prems" Cons tk consider "m = m'" | "g" "Match m \<in> set (scan g i r rest)"
        by (cases g) auto
      then show ?thesis
      proof cases
        case 1
        with here show ?thesis by simp
      next
        case 2
        from "2.IH"(2) [OF Cons True 2] suf show ?thesis
          by (blast intro: suffix_order.trans)
      qed
    next
      case False
      with suf m' have "m' = []"
        by (metis append_self_conv2 le_antisym length_Cons not_less suffix_length_le
            length_append add_cancel_left_left length_0_conv)
      with False "2.prems" Cons consider "m = m'" | "g" "Match m \<in> set (scan g i r cs)"
        by (cases g) auto
      then show ?thesis
      proof cases
        case 1
        with here show ?thesis by simp
      next
        case 2
        from "2.IH"(3) [OF Cons False 2] show ?thesis by (auto simp: suffix_Cons)
      qed
    qed
  qed
qed


lemma concat_singletons: "concat (map (\<lambda>s. [s]) xs) = xs"
  by (induction xs) auto

lemma ms_Seq_Eps [simp]: "ms i (Seq a Eps) s = ms i a s"
proof -
  have "ms i Eps = (\<lambda>s. [s])" by (rule ext) simp
  then show ?thesis by (simp add: concat_singletons)
qed

lemma ms_seq_list_append:
  "x \<in> set (ms i (seq_list (as @ bs)) s) \<longleftrightarrow>
     (\<exists>y \<in> set (ms i (seq_list as) s). x \<in> set (ms i (seq_list bs) y))"
  by (induction as arbitrary: s) auto

lemma ms_Star_Cls:
  "x \<in> set (ms i (Star (Cls P)) s) \<Longrightarrow> \<exists>m. s = m @ x \<and> list_all P m"
proof (induction s)
  case Nil
  then show ?case using ms_Star_mem [of x i "Cls P" "[]"] by simp
next
  case (Cons c cs)
  from Cons.prems ms_Star_mem [of x i "Cls P" "c # cs"]
  consider "x = c # cs" | "P c" "x \<in> set (ms i (Star (Cls P)) cs)"
    by (auto split: if_splits)
  then show ?case
  proof cases
    case 1
    then show ?thesis by simp
  next
    case 2
    from Cons.IH [OF 2(2)] obtain m where "cs = m @ x" "list_all P m" by blast
    with 2(1) have "c # cs = (c # m) @ x \<and> list_all P (c # m)" by simp
    then show ?thesis by blast
  qed
qed

lemma ms_Plus_Cls_text:
  "x \<in> set (ms i (Plus (Cls P)) s) \<Longrightarrow> \<exists>m. s = m @ x \<and> m \<noteq> [] \<and> list_all P m"
proof -
  assume "x \<in> set (ms i (Plus (Cls P)) s)"
  then obtain c cs where s: "s = c # cs" "P c" "x \<in> set (ms i (Star (Cls P)) cs)"
    by (cases s) (auto split: if_splits)
  from ms_Star_Cls [OF s(3)] obtain m where "cs = m @ x" "list_all P m" by blast
  with s have "s = (c # m) @ x \<and> c # m \<noteq> [] \<and> list_all P (c # m)" by simp
  then show ?thesis by blast
qed

section \<open>\<open>slugify\<close>\<close>

lemma lower_char_not_upper: "\<not> is_upper_az (lower_char c)"
  by (auto simp: is_upper_az_def lower_char_def Let_def)

text \<open>
  Claim C7. For every string, each character of the output of \<open>slugify\<close> is one of
  \<open>[a-z0-9_-]\<close>, and none is a white space character: the lower-casing leaves no capital
  letter, the first replacement removes whatever is neither a word character nor a
  space, and the second one turns the spaces into hyphens.
\<close>

theorem slugify_chars: "\<forall>c \<in> set (slugify text). slug_char c \<and> \<not> is_space c"
proof
  fix c assume c: "c \<in> set (slugify text)"
  let ?r1 = "\<lparr>rx_source = Plus (Cls (\<lambda>c. \<not> (is_word c \<or> c = CHR '' ''))), rx_global = True,
              rx_ignoreCase = False\<rparr>"
  let ?r2 = "\<lparr>rx_source = Plus (Cls (\<lambda>c. c = CHR '' '')), rx_global = True, rx_ignoreCase = False\<rparr>"
  let ?s1 = "toLowerCase text"
  let ?s2 = "replace ?r1 (\<lambda>_. []) ?s1"
  have slug: "slug_char c"
  proof (cases "c = CHR ''-''")
    case True
    then show ?thesis by (simp add: slug_char_def)
  next
    case False
    with c replace_chars [of c ?r2 "\<lambda>_. ''-''" ?s2]
    have "Lit c \<in> set (scan True False (Plus (Cls (\<lambda>c. c = CHR '' ''))) ?s2)"
      by (simp add: slugify_def)
    then have c2: "c \<in> set ?s2" "c \<noteq> CHR '' ''"
      using scan_Plus_Cls_Lit by fastforce+
    from c2(1) replace_chars [of c ?r1 "\<lambda>_. []" ?s1]
    have "Lit c \<in> set (scan True False (Plus (Cls (\<lambda>c. \<not> (is_word c \<or> c = CHR '' '')))) ?s1)"
      by simp
    then have c1: "c \<in> set ?s1" "is_word c \<or> c = CHR '' ''"
      using scan_Plus_Cls_Lit by fastforce+
    from c1(1) obtain d where "c = lower_char d" by (auto simp: toLowerCase_def)
    then have "\<not> is_upper_az c" by (simp add: lower_char_not_upper)
    with c1(2) c2(2) show ?thesis by (auto simp: slug_char_def is_word_def)
  qed
  moreover from slug have "\<not> is_space c"
    by (auto simp: slug_char_def is_space_def is_lower_az_def is_digit_def)
  ultimately show "slug_char c \<and> \<not> is_space c" by simp
qed

theorem slugify_chars_witness:
  "slugify ''Hi, You_2 !'' = ''hi-you_2-'' \<and>
   list_all (\<lambda>c. slug_char c \<and> \<not> is_space c) (slugify ''Hi, You_2 !'')"
proof (rule conjI)
  show "slugify ''Hi, You_2 !'' = ''hi-you_2-''" by code_simp
  show "list_all (\<lambda>c. slug_char c \<and> \<not> is_space c) (slugify ''Hi, You_2 !'')"
    using slugify_chars [of "''Hi, You_2 !''"] by (simp add: list_all_iff)
qed

section \<open>\<open>resolveObjectPath\<close>\<close>

lemma collect_map_Inr: "collect (map Inr vs) = Inr vs"
  by (induction vs) auto

lemma collect_Inr_D: "collect rs = Inr vs \<Longrightarrow> rs = map Inr vs"
proof (induction rs arbitrary: vs)
  case Nil
  then show ?case by simp
next
  case (Cons r rs)
  show ?case
  proof (cases r)
    case (Inl e)
    with Cons.prems show ?thesis by simp
  next
    case (Inr v)
    with Cons.prems obtain ws where ws: "collect rs = Inr ws" "vs = v # ws"
      by (auto split: sum.splits)
    from Cons.IH [OF ws(1)] Inr ws(2) show ?thesis by simp
  qed
qed

lemma collect_Inr: "collect rs = Inr vs \<longleftrightarrow> rs = map Inr vs"
  using collect_Inr_D collect_map_Inr by blast


lemma collect_first_Inl:
  "i < length rs \<Longrightarrow> rs ! i = Inl e \<Longrightarrow> \<forall>j<i. \<exists>v. rs ! j = Inr v \<Longrightarrow> collect rs = Inl e"
proof (induction rs arbitrary: i)
  case Nil
  then show ?case by simp
next
  case (Cons r rs)
  show ?case
  proof (cases i)
    case 0
    with Cons.prems show ?thesis by simp
  next
    case (Suc n)
    with Cons.prems(3) obtain v where v: "r = Inr v" by fastforce
    have "\<forall>j<n. \<exists>v. rs ! j = Inr v"
    proof (intro allI impI)
      fix j assume "j < n"
      with Suc have "Suc j < i" by simp
      with Cons.prems(3) have "\<exists>v. (r # rs) ! Suc j = Inr v" by blast
      then show "\<exists>v. rs ! j = Inr v" by simp
    qed
    with Cons.IH [of n] Cons.prems(1,2) Suc have "collect rs = Inl e" by simp
    with v show ?thesis by simp
  qed
qed


















text \<open>
  Claim C1, as the claim words it, fails: on a sequence node \<open>traverse\<close> tests whether
  anything is left after the falsy results are discarded, before it flattens. When every
  kept result is an empty sequence, the flattened sequence is empty and is returned as it
  is, where the claim's wording gives "not found".
\<close>

theorem traverse_fan_out_counterexample:
  "map (\<lambda>item. traverse item [''a'']) [Obj [(''a'', Arr [])]] = [Inr (Arr [])] \<and>
   resolveObjectPath (Arr [Obj [(''a'', Arr [])]]) ''a'' = Inr (Arr []) \<and>
   fan_out_spec [Arr []] = Undefined"
  by (simp add: resolveObjectPath_def flat_def fan_out_spec_def)

text \<open>
  Claim C1, amended. On a sequence node \<open>traverse\<close> maps the remaining path over every
  element. When each of these traversals returns, it discards the falsy results
  (\<open>undefined\<close>, \<open>null\<close>, \<open>false\<close>, \<open>0\<close>, \<open>NaN\<close>, the empty string), returns "not found"
  if no result is left, and otherwise the results flattened one level. When one of them
  throws, the first exception in the order of the elements is the outcome. The example
  of the claim holds.
\<close>

theorem traverse_fan_out:
  "(map (\<lambda>item. traverse item keyLeft) items = map Inr mapped \<longrightarrow>
      traverse (Arr items) keyLeft =
        Inr (if filter truthy mapped = [] then Undefined else Arr (flat (filter truthy mapped)))) \<and>
   (i < length items \<and> traverse (items ! i) keyLeft = Inl e \<and>
    (\<forall>j<i. \<exists>v. traverse (items ! j) keyLeft = Inr v) \<longrightarrow>
      traverse (Arr items) keyLeft = Inl e) \<and>
   resolveObjectPath
     (Obj [(''user'', Obj [(''addresses'',
        Arr [Obj [(''city'', Str ''NY'')], Obj [(''city'', Str ''LA'')]])])])
     ''user.addresses.city'' = Inr (Arr [Str ''NY'', Str ''LA''])"
proof (intro conjI impI)
  show "traverse (Arr items) keyLeft =
        Inr (if filter truthy mapped = [] then Undefined else Arr (flat (filter truthy mapped)))"
    if "map (\<lambda>item. traverse item keyLeft) items = map Inr mapped"
    using that by (simp add: collect_map_Inr Let_def)
  show "traverse (Arr items) keyLeft = Inl e"
    if a: "i < length items \<and> traverse (items ! i) keyLeft = Inl e \<and>
        (\<forall>j<i. \<exists>v. traverse (items ! j) keyLeft = Inr v)"
  proof -
    have "collect (map (\<lambda>item. traverse item keyLeft) items) = Inl e"
      by (rule collect_first_Inl [of i]) (use a in auto)
    then show ?thesis by simp
  qed
  show "resolveObjectPath
     (Obj [(''user'', Obj [(''addresses'',
        Arr [Obj [(''city'', Str ''NY'')], Obj [(''city'', Str ''LA'')]])])])
     ''user.addresses.city'' = Inr (Arr [Str ''NY'', Str ''LA''])"
    by (simp add: resolveObjectPath_def flat_def inherited_def)
qed

theorem traverse_fan_out_witness:
  "traverse
     (Arr [Obj [(''a'', Str ''x'')], Obj [(''a'', Num (Fin 0))], Obj [(''b'', Str ''w'')],
           Obj [(''a'', Arr [Str ''y'', Str ''z''])]])
     [''a''] = Inr (Arr [Str ''x'', Str ''y'', Str ''z'']) \<and>
   traverse (Arr [Obj [(''a'', Str [])], Obj [(''b'', Str ''w'')]]) [''a''] = Inr Undefined \<and>
   traverse (Arr [Obj [(''constructor'', Str ''c'')], Obj [], Null]) [''constructor'', ''caller''] =
     Inl (TypeError ''caller and arguments may not be accessed on this function'')"
proof -
  let ?items = "[Obj [(''a'', Str ''x'')], Obj [(''a'', Num (Fin 0))], Obj [(''b'', Str ''w'')],
        Obj [(''a'', Arr [Str ''y'', Str ''z''])]]"
  let ?items2 = "[Obj [(''a'', Str [])], Obj [(''b'', Str ''w'')]]"
  let ?items3 = "[Obj [(''constructor'', Str ''c'')], Obj [], Null]"
  let ?e = "TypeError ''caller and arguments may not be accessed on this function''"
  have m1: "map (\<lambda>item. traverse item [''a'']) ?items =
      map Inr [Str ''x'', Num (Fin 0), Undefined, Arr [Str ''y'', Str ''z'']]"
    by (simp add: inherited_def object_prototype_names_def)
  have m2: "map (\<lambda>item. traverse item [''a'']) ?items2 = map Inr [Str [], Undefined]"
    by (simp add: inherited_def object_prototype_names_def)
  have m3: "traverse (?items3 ! 1) [''constructor'', ''caller''] = Inl ?e"
    by (simp add: inherited_def)
  have m4: "\<forall>j<1. \<exists>v. traverse (?items3 ! j) [''constructor'', ''caller''] = Inr v"
    by (simp add: inherited_def index_of_key_def string_prototype_names_def
        object_prototype_names_def)
  from traverse_fan_out [of "[''a'']" ?items "[Str ''x'', Num (Fin 0), Undefined, Arr [Str ''y'', Str ''z'']]"]
    traverse_fan_out [of "[''a'']" ?items2 "[Str [], Undefined]"]
    traverse_fan_out [of "[''constructor'', ''caller'']" ?items3 _ 1 ?e]
    m1 m2 m3 m4
  show ?thesis
    by (simp add: flat_def del: traverse.simps)
qed

section \<open>\<open>transformEmptyValues\<close>\<close>

lemma collect_fixpoint:
  assumes "\<And>x. x \<in> set xs \<Longrightarrow> \<exists>v. F x = Inr v \<and> F v = Inr v"
  shows "\<exists>vs. collect (map F xs) = Inr vs \<and> collect (map F vs) = Inr vs \<and> length vs = length xs"
  using assms
proof (induction xs)
  case Nil
  then show ?case by simp
next
  case (Cons x xs)
  then obtain v where v: "F x = Inr v" "F v = Inr v" by auto
  from Cons obtain vs where
    vs: "collect (map F xs) = Inr vs" "collect (map F vs) = Inr vs" "length vs = length xs"
    by auto
  from v vs have "collect (map F (x # xs)) = Inr (v # vs) \<and>
      collect (map F (v # vs)) = Inr (v # vs) \<and> length (v # vs) = length (x # xs)"
    by simp
  then show ?case by blast
qed

lemma transform_empty_input:
  "is_object input \<Longrightarrow> isEmpty options input \<Longrightarrow>
     transformEmptyValues input options = Inr (replacement options)"
  by (cases input) (auto simp: is_object_def)

lemma is_object_cases: "is_object v \<longleftrightarrow> (\<exists>xs. v = Arr xs) \<or> (\<exists>kvs. v = Obj kvs)"
  by (cases v) (auto simp: is_object_def)

lemma transform_idem_aux:
  "\<not> is_object (replacement options) \<Longrightarrow>
   (\<And>c. is_object c \<Longrightarrow> isEmpty options c \<Longrightarrow> c = Arr []) \<Longrightarrow>
   is_object input \<Longrightarrow> \<not> isEmpty options input \<Longrightarrow>
     \<exists>out. transformEmptyValues input options = Inr out \<and> is_object out \<and>
           \<not> isEmpty options out \<and> transformEmptyValues out options = Inr out"
proof (induction input options rule: transformEmptyValues.induct)
  case (1 items options)
  let ?F = "\<lambda>item. if is_object item then transformEmptyValues item options
                  else Inr (if isEmpty options item then replacement options else item)"
  have Fr: "?F (replacement options) = Inr (replacement options)"
    using "1.prems" by simp
  have item: "\<exists>v. ?F x = Inr v \<and> ?F v = Inr v" if x: "x \<in> set items" for x
  proof (cases "is_object x")
    case True
    show ?thesis
    proof (cases "isEmpty options x")
      case empty: True
      with True have "?F x = Inr (replacement options)"
        by (simp add: transform_empty_input)
      with Fr show ?thesis by blast
    next
      case False
      from "1.IH" [OF "1.prems"(4) x True "1.prems"(1) "1.prems"(2) True False]
      obtain out where "transformEmptyValues x options = Inr out" "is_object out"
        "transformEmptyValues out options = Inr out" by blast
      with True show ?thesis by auto
    qed
  next
    case False
    with Fr show ?thesis by (cases "isEmpty options x") auto
  qed
  from collect_fixpoint [of items ?F, OF item] obtain vs where
    vs: "collect (map ?F items) = Inr vs" "collect (map ?F vs) = Inr vs" "length vs = length items"
    by blast
  have ne: "\<not> isEmpty options (Arr vs)"
  proof
    assume "isEmpty options (Arr vs)"
    with "1.prems"(2) [of "Arr vs"] have "vs = []" by (simp add: is_object_def)
    with vs(3) have "items = []" by simp
    with \<open>isEmpty options (Arr vs)\<close> \<open>vs = []\<close> "1.prems"(4) show False by simp
  qed
  from "1.prems"(4) vs(1) have "transformEmptyValues (Arr items) options = Inr (Arr vs)" by simp
  moreover from ne vs(2) have "transformEmptyValues (Arr vs) options = Inr (Arr vs)" by simp
  ultimately show ?case using ne by (auto simp: is_object_def)
next
  case (2 entries options)
  let ?F = "\<lambda>item. if is_object item then transformEmptyValues item options
                  else Inr (if isEmpty options item then replacement options else item)"
  let ?G = "\<lambda>(key, value). case ?F value of Inl e \<Rightarrow> Inl e | Inr v \<Rightarrow> Inr (key, v)"
  have Fr: "?F (replacement options) = Inr (replacement options)"
    using "2.prems" by simp
  have item: "\<exists>v. ?G kv = Inr v \<and> ?G v = Inr v" if kv: "kv \<in> set entries" for kv
  proof -
    obtain k x where kx: "kv = (k, x)" by (cases kv)
    have "\<exists>v. ?F x = Inr v \<and> ?F v = Inr v"
    proof (cases "is_object x")
      case True
      show ?thesis
      proof (cases "isEmpty options x")
        case empty: True
        with True have "?F x = Inr (replacement options)"
          by (simp add: transform_empty_input)
        with Fr show ?thesis by blast
      next
        case False
        from "2.IH" [OF "2.prems"(4) kv [unfolded kx] refl True "2.prems"(1) "2.prems"(2) True False]
        obtain out where "transformEmptyValues x options = Inr out" "is_object out"
          "transformEmptyValues out options = Inr out" by blast
        with True show ?thesis by auto
      qed
    next
      case False
      with Fr show ?thesis by (cases "isEmpty options x") auto
    qed
    then obtain v where "?F x = Inr v" "?F v = Inr v" by blast
    then have "?G (k, x) = Inr (k, v) \<and> ?G (k, v) = Inr (k, v)" by simp
    with kx show ?thesis by blast
  qed
  from collect_fixpoint [of entries ?G, OF item] obtain vs where
    vs: "collect (map ?G entries) = Inr vs" "collect (map ?G vs) = Inr vs"
    by blast
  have ne: "\<not> isEmpty options (Obj vs)"
    using "2.prems"(2) [of "Obj vs"] by (auto simp: is_object_def)
  from "2.prems"(4) vs(1) have "transformEmptyValues (Obj entries) options = Inr (Obj vs)" by simp
  moreover from ne vs(2) have "transformEmptyValues (Obj vs) options = Inr (Obj vs)" by simp
  ultimately show ?case using ne by (auto simp: is_object_def)
qed (auto simp: is_object_def)


lemma builtin_rule_objects:
  "isEmptyFn options = None \<Longrightarrow> is_object c \<Longrightarrow> isEmpty options c \<Longrightarrow> c = Arr []"
  by (cases c) (auto simp: isEmpty_def is_object_def split: if_splits)




text \<open>
  Claim C2, as the claim words it, fails. With \<open>processEmptyArrays\<close>, the empty sequence
  is itself empty: the first run returns the replacement \<open>null\<close>, and the second run, on
  \<open>null\<close>, throws a \<open>TypeError\<close>. With a \<open>replaceWith\<close> that is a sequence holding an
  empty string, the second run enters the replacement of the first and replaces inside it.
\<close>

theorem transformEmptyValues_idempotent_counterexample:
  "transformEmptyValues (Arr []) (default_conversion\<lparr>processEmptyArrays := Some True\<rparr>) = Inr Null \<and>
   transformEmptyValues Null (default_conversion\<lparr>processEmptyArrays := Some True\<rparr>) =
     Inl (TypeError ''Input must be an object or array'') \<and>
   transformEmptyValues (Obj [(''a'', Str [])]) (default_conversion\<lparr>replaceWith := Arr [Str []]\<rparr>) =
     Inr (Obj [(''a'', Arr [Str []])]) \<and>
   transformEmptyValues (Obj [(''a'', Arr [Str []])]) (default_conversion\<lparr>replaceWith := Arr [Str []]\<rparr>) =
     Inr (Obj [(''a'', Arr [Arr [Str []]])])"
  by (simp add: default_conversion_def isEmpty_def replacement_def dflt_def is_object_def trim_def)

text \<open>
  Claim C2, amended. Let the input be a mapping or sequence that is not itself empty, let
  \<open>replaceWith\<close> be no mapping or sequence (\<open>null\<close>, the default, or a scalar), and let
  the emptiness rule hold of no mapping or sequence other than the empty sequence, as
  the built-in rule does. Then \<open>transformEmptyValues\<close> returns a value, and a second
  run with the same options returns that same value.
\<close>

theorem transformEmptyValues_idempotent:
  assumes "is_object input"
    and "\<not> isEmpty options input"
    and "\<not> is_object (replacement options)"
    and "isEmptyFn options = None \<or> (\<forall>c. is_object c \<longrightarrow> isEmpty options c \<longrightarrow> c = Arr [])"
  shows "\<exists>out. transformEmptyValues input options = Inr out \<and>
               transformEmptyValues out options = Inr out"
proof -
  from assms(4) have "\<And>c. is_object c \<Longrightarrow> isEmpty options c \<Longrightarrow> c = Arr []"
    using builtin_rule_objects by blast
  from transform_idem_aux [OF assms(3) this assms(1) assms(2)] show ?thesis by blast
qed

theorem transformEmptyValues_idempotent_witness:
  "transformEmptyValues
     (Obj [(''name'', Str []), (''age'', Num (Fin 25)), (''tags'', Arr []),
           (''scores'', Arr [Num (Fin 100), Str '' '', Obj [(''value'', Str [])]])])
     (default_conversion\<lparr>processEmptyArrays := Some True\<rparr>) =
   Inr (Obj [(''name'', Null), (''age'', Num (Fin 25)), (''tags'', Null),
             (''scores'', Arr [Num (Fin 100), Null, Obj [(''value'', Null)]])]) \<and>
   transformEmptyValues
     (Obj [(''name'', Null), (''age'', Num (Fin 25)), (''tags'', Null),
           (''scores'', Arr [Num (Fin 100), Null, Obj [(''value'', Null)]])])
     (default_conversion\<lparr>processEmptyArrays := Some True\<rparr>) =
   Inr (Obj [(''name'', Null), (''age'', Num (Fin 25)), (''tags'', Null),
             (''scores'', Arr [Num (Fin 100), Null, Obj [(''value'', Null)]])])"
proof -
  let ?x = "Obj [(''name'', Str []), (''age'', Num (Fin 25)), (''tags'', Arr []),
           (''scores'', Arr [Num (Fin 100), Str '' '', Obj [(''value'', Str [])]])]"
  let ?o = "default_conversion\<lparr>processEmptyArrays := Some True\<rparr>"
  have 1: "is_object ?x" by (simp add: is_object_def)
  have 2: "\<not> isEmpty ?o ?x" by (simp add: isEmpty_def default_conversion_def)
  have 3: "\<not> is_object (replacement ?o)"
    by (simp add: replacement_def default_conversion_def is_object_def)
  have 4: "isEmptyFn ?o = None \<or> (\<forall>c. is_object c \<longrightarrow> isEmpty ?o c \<longrightarrow> c = Arr [])"
    by (simp add: default_conversion_def)
  have 5: "transformEmptyValues ?x ?o =
     Inr (Obj [(''name'', Null), (''age'', Num (Fin 25)), (''tags'', Null),
             (''scores'', Arr [Num (Fin 100), Null, Obj [(''value'', Null)]])])"
    by (simp add: default_conversion_def isEmpty_def replacement_def dflt_def is_object_def
        trim_def is_space_def)
  from transformEmptyValues_idempotent [OF 1 2 3 4] 5 show ?thesis by simp
qed

section \<open>\<open>extractNumber\<close>\<close>

lemma RegExp_number_pattern:
  "RegExp (number_pattern allowNeg allowDec) ''g'' =
     Inr \<lparr>rx_source = number_re allowNeg allowDec, rx_global = True, rx_ignoreCase = False\<rparr>"
  by (cases allowNeg; cases allowDec)
     (simp_all add: RegExp_def number_pattern_def number_re_def bslash_def is_syntax_char_def
        quantify_def)

lemma is_digit_dash: "is_digit c \<Longrightarrow> c \<noteq> CHR ''-'' \<and> c \<noteq> CHR ''.''"
  by (auto simp: is_digit_def)

lemma number_text_intro:
  assumes sign: "sign = [] \<or> (allowNeg \<and> sign = ''-'')"
    and ip: "ip \<noteq> []" "list_all is_digit ip"
    and frc: "frc = [] \<or> (allowDec \<and> (\<exists>fp. frc = CHR ''.'' # fp \<and> fp \<noteq> [] \<and> list_all is_digit fp))"
  shows "is_number_text allowNeg allowDec (sign @ ip @ frc)"
proof -
  from ip obtain d ds where d: "ip = d # ds" "is_digit d" by (cases ip) auto
  have u: "(if allowNeg \<and> sign @ ip @ frc \<noteq> [] \<and> hd (sign @ ip @ frc) = CHR ''-''
            then tl (sign @ ip @ frc) else sign @ ip @ frc) = ip @ frc"
    using sign d is_digit_dash [of d] by auto
  have "\<not> is_digit (hd frc)" if "frc \<noteq> []"
    using frc that is_digit_dash [of "CHR ''.''"] by auto
  then have tw: "takeWhile is_digit (ip @ frc) = ip" "dropWhile is_digit (ip @ frc) = frc"
    using ip(2) by (cases frc; simp add: list_all_iff takeWhile_append dropWhile_append
        takeWhile_eq_all_conv dropWhile_eq_Nil_conv)+
  from frc ip show ?thesis
    unfolding is_number_text_def is_unsigned_text_def Let_def u tw by auto
qed

lemma ms_number_re_text:
  assumes "x \<in> set (ms False (number_re allowNeg allowDec) t)"
  shows "\<exists>m. t = m @ x \<and> is_number_text allowNeg allowDec m"
proof -
  define sg where "sg = (if allowNeg then [Opt (Chr CHR ''-'')] else [])"
  define fr where "fr = (if allowDec then [Opt (seq_list [Chr CHR ''.'', Plus (Cls is_digit)])] else [])"
  from assms have "x \<in> set (ms False (seq_list (sg @ [Plus (Cls is_digit)] @ fr)) t)"
    unfolding number_re_def sg_def fr_def .
  then obtain y z where
    y: "y \<in> set (ms False (seq_list sg) t)" and
    z: "z \<in> set (ms False (seq_list [Plus (Cls is_digit)]) y)" and
    x: "x \<in> set (ms False (seq_list fr) z)"
    unfolding ms_seq_list_append by blast
  have "seq_list [Plus (Cls is_digit)] = Seq (Plus (Cls is_digit)) Eps" by simp
  with z have z: "z \<in> set (ms False (Plus (Cls is_digit)) y)"
    using ms_Seq_Eps [of False "Plus (Cls is_digit)" y] by simp
  from y obtain sign where sign: "t = sign @ y" "sign = [] \<or> (allowNeg \<and> sign = ''-'')"
    by (cases allowNeg) (auto simp: sg_def split: list.splits if_splits)
  from ms_Plus_Cls_text [OF z] obtain ip where
    ip: "y = ip @ z" "ip \<noteq> []" "list_all is_digit ip" by blast
  have "\<exists>frc. z = frc @ x \<and>
          (frc = [] \<or> (allowDec \<and> (\<exists>fp. frc = CHR ''.'' # fp \<and> fp \<noteq> [] \<and> list_all is_digit fp)))"
  proof (cases "x = z")
    case True
    then show ?thesis by simp
  next
    case False
    with x have dec: allowDec by (cases allowDec) (auto simp: fr_def)
    with x False obtain w where w: "z = CHR ''.'' # w" "x \<in> set (ms False (Plus (Cls is_digit)) w)"
      by (cases z) (auto simp: fr_def split: if_splits)
    from ms_Plus_Cls_text [OF w(2)] obtain fp where
      fp: "w = fp @ x" "fp \<noteq> []" "list_all is_digit fp"
      by blast
    from w(1) fp(1) have "z = (CHR ''.'' # fp) @ x" by simp
    with dec fp(2,3) show ?thesis by blast
  qed
  then obtain frc where frc: "z = frc @ x"
    "frc = [] \<or> (allowDec \<and> (\<exists>fp. frc = CHR ''.'' # fp \<and> fp \<noteq> [] \<and> list_all is_digit fp))"
    by blast
  from sign ip frc have "t = (sign @ ip @ frc) @ x" by simp
  moreover from number_text_intro [OF sign(2) ip(2) ip(3) frc(2)]
  have "is_number_text allowNeg allowDec (sign @ ip @ frc)" .
  ultimately show ?thesis by blast
qed

lemma number_text_nonempty: "is_number_text allowNeg allowDec m \<Longrightarrow> m \<noteq> []"
  by (auto simp: is_number_text_def is_unsigned_text_def Let_def)

lemma concat_map_nonempty: "y \<in> set ys \<Longrightarrow> f y \<noteq> [] \<Longrightarrow> concat (map f ys) \<noteq> []"
  by auto

lemma ms_number_re_digit:
  assumes "is_digit c"
  shows "ms False (number_re allowNeg allowDec) (c # cs) \<noteq> []"
proof -
  have st: "ms False (Star (Cls is_digit)) cs \<noteq> []" by (rule ms_Star_nonempty)
  then obtain y where y: "y \<in> set (ms False (Star (Cls is_digit)) cs)"
    by (cases "ms False (Star (Cls is_digit)) cs") auto
  have plus: "ms False (Plus (Cls is_digit)) (c # cs) = ms False (Star (Cls is_digit)) cs"
    using assms by simp
  have "ms False (seq_list ([Plus (Cls is_digit)] @
               (if allowDec then [Opt (seq_list [Chr CHR ''.'', Plus (Cls is_digit)])] else [])))
            (c # cs) \<noteq> []"
  proof (cases allowDec)
    case True
    have "concat (map (ms False (Opt (Seq (Chr CHR ''.'') (Plus (Cls is_digit)))))
            (ms False (Star (Cls is_digit)) cs)) \<noteq> []"
      using y by (rule concat_map_nonempty) simp
    with True assms show ?thesis by simp
  next
    case False
    with st assms show ?thesis by simp
  qed
  moreover have "c \<noteq> CHR ''-''" using assms is_digit_dash by blast
  ultimately show ?thesis
    by (cases allowNeg) (simp_all add: number_re_def)
qed

lemma join_Nil: "join [] xs = concat xs"
  by (induction "[] :: string" xs rule: join.induct) auto

lemma match_text_mem: "m \<in> set (concat (map match_text toks)) \<longleftrightarrow> Match m \<in> set toks"
proof (induction toks)
  case Nil
  then show ?case by simp
next
  case (Cons t toks)
  then show ?case by (cases t) auto
qed

lemma scan_number_re_matches:
  assumes "Match m \<in> set (scan g False (number_re allowNeg allowDec) s)"
  shows "is_number_text allowNeg allowDec m"
proof -
  from scan_Match [OF assms] obtain t where
    t: "ms False (number_re allowNeg allowDec) t \<noteq> []"
       "t = m @ hd (ms False (number_re allowNeg allowDec) t)"
    by blast
  from t(1) have "hd (ms False (number_re allowNeg allowDec) t) \<in>
      set (ms False (number_re allowNeg allowDec) t)" by simp
  from ms_number_re_text [OF this] obtain m' where
    m': "t = m' @ hd (ms False (number_re allowNeg allowDec) t)"
        "is_number_text allowNeg allowDec m'" by blast
  from t(2) m'(1) have "m = m'" by (metis append_same_eq)
  with m'(2) show ?thesis by simp
qed

lemma scan_number_re_lits:
  assumes "Lit c \<in> set (scan True False (number_re allowNeg allowDec) s)"
  shows "\<not> is_digit c"
proof
  assume d: "is_digit c"
  from scan_Lit [OF _ assms] obtain cs where
    cs: "ms False (number_re allowNeg allowDec) (c # cs) = [] \<or>
         \<not> length (hd (ms False (number_re allowNeg allowDec) (c # cs))) < Suc (length cs)"
    by blast
  let ?h = "hd (ms False (number_re allowNeg allowDec) (c # cs))"
  from ms_number_re_digit [OF d] have ne: "ms False (number_re allowNeg allowDec) (c # cs) \<noteq> []" .
  then have "?h \<in> set (ms False (number_re allowNeg allowDec) (c # cs))" by simp
  from ms_number_re_text [OF this] obtain m where
    m: "c # cs = m @ ?h" "is_number_text allowNeg allowDec m" by blast
  from m(2) have "m \<noteq> []" by (rule number_text_nonempty)
  with m(1) have "length ?h < Suc (length cs)"
    by (metis length_Cons length_append length_greater_0_conv less_add_same_cancel2)
  with cs ne show False by simp
qed

lemmas number_eval = extractNumber_def default_extract_def dflt_def trim_def is_space_def
  match_def number_re_def is_digit_def ms.simps(6) parseInt10_def parseFloat_def decimal_literal_def
  nat_of_digits_def digit_val_def isNaN_def exponent_of_def

lemma dropWhile_takeWhile_same: "dropWhile P (takeWhile P xs) = []"
  by (induction xs) auto

lemma is_digit_not_sign:
  "is_digit c \<Longrightarrow> c \<noteq> CHR ''-'' \<and> c \<noteq> CHR ''+'' \<and> c \<noteq> CHR ''.'' \<and> \<not> is_space c \<and>
     c \<noteq> CHR ''I''"
  by (auto simp: is_digit_def is_space_def)

lemma number_text_head:
  assumes "is_number_text allowNeg allowDec m"
  shows "\<exists>sign d w. m = sign @ d # w \<and> (sign = [] \<or> sign = ''-'') \<and> is_digit d"
proof -
  define u where "u = (if allowNeg \<and> m \<noteq> [] \<and> hd m = CHR ''-'' then tl m else m)"
  from assms have "takeWhile is_digit u \<noteq> []"
    by (simp add: is_number_text_def is_unsigned_text_def Let_def u_def)
  then obtain d w where dw: "u = d # w" "is_digit d"
    by (cases u) (auto split: if_splits)
  have "m = u \<or> m = CHR ''-'' # u"
    by (cases m) (auto simp: u_def)
  then show ?thesis
  proof
    assume "m = u"
    with dw have "m = [] @ d # w \<and> ([] = [] \<or> [] = ''-'') \<and> is_digit d" by simp
    then show ?thesis by blast
  next
    assume "m = CHR ''-'' # u"
    with dw have "m = ''-'' @ d # w \<and> (''-'' = [] \<or> ''-'' = ''-'') \<and> is_digit d" by simp
    then show ?thesis by blast
  qed
qed

lemma number_text_chars:
  assumes "is_number_text allowNeg allowDec m" and "c \<in> set m"
  shows "is_digit c \<or> c = CHR ''-'' \<or> c = CHR ''.''"
proof -
  define u where "u = (if allowNeg \<and> m \<noteq> [] \<and> hd m = CHR ''-'' then tl m else m)"
  have m: "m = u \<or> m = CHR ''-'' # u"
    by (cases m) (auto simp: u_def)
  from assms(1) have r: "dropWhile is_digit u = [] \<or>
      (hd (dropWhile is_digit u) = CHR ''.'' \<and> list_all is_digit (tl (dropWhile is_digit u)))"
    by (auto simp: is_number_text_def is_unsigned_text_def Let_def u_def)
  have u: "u = takeWhile is_digit u @ dropWhile is_digit u" by simp
  have "is_digit x \<or> x = CHR ''.''" if "x \<in> set u" for x
  proof -
    from that u have "x \<in> set (takeWhile is_digit u) \<or> x \<in> set (dropWhile is_digit u)"
      by (metis Un_iff set_append)
    then show ?thesis
    proof
      assume "x \<in> set (takeWhile is_digit u)"
      then show ?thesis by (auto dest: set_takeWhileD)
    next
      assume x: "x \<in> set (dropWhile is_digit u)"
      then obtain e es where e: "dropWhile is_digit u = e # es" by (cases "dropWhile is_digit u") auto
      with r x show ?thesis by (auto simp: list_all_iff)
    qed
  qed
  with m assms(2) show ?thesis by (metis set_ConsD)
qed

text \<open>The value of the longest unsigned prefix, from its digits.\<close>

lemma unsigned_value_prefix:
  "unsigned_value (unsigned_prefix allowDec u) =
     (let ip = takeWhile is_digit u;
          r = dropWhile is_digit u;
          fp = (if allowDec \<and> r \<noteq> [] \<and> hd r = CHR ''.'' then takeWhile is_digit (tl r) else [])
      in of_nat (nat_of_digits ip) + of_nat (nat_of_digits fp) / 10 ^ length fp)"
proof -
  define ip where "ip = takeWhile is_digit u"
  define r where "r = dropWhile is_digit u"
  define fp where "fp = (if allowDec \<and> r \<noteq> [] \<and> hd r = CHR ''.'' then takeWhile is_digit (tl r) else [])"
  define F where "F = (if fp = [] then [] else CHR ''.'' # fp)"
  have p: "unsigned_prefix allowDec u = ip @ F"
    unfolding unsigned_prefix_def ip_def r_def fp_def F_def Let_def ..
  have ipd: "\<forall>x \<in> set ip. is_digit x" by (auto simp: ip_def dest: set_takeWhileD)
  have Fh: "F = [] \<or> \<not> is_digit (hd F)" by (auto simp: F_def is_digit_def)
  have tw: "takeWhile is_digit (ip @ F) = ip"
    using ipd Fh by (cases F) (simp_all add: takeWhile_append2)
  have dw: "dropWhile is_digit (ip @ F) = F"
    using ipd Fh by (cases F) (simp_all add: dropWhile_append2)
  have tlF: "(if F = [] then [] else tl F) = fp" by (simp add: F_def)
  have "unsigned_value (ip @ F) =
      of_nat (nat_of_digits ip) + of_nat (nat_of_digits fp) / 10 ^ length fp"
    unfolding unsigned_value_def Let_def tw dw tlF ..
  then show ?thesis
    unfolding p Let_def ip_def r_def fp_def .
qed

lemma unsigned_prefix_prefix: "prefix (unsigned_prefix allowDec u) u"
proof -
  define ip where "ip = takeWhile is_digit u"
  define r where "r = dropWhile is_digit u"
  have u: "u = ip @ r" by (simp add: ip_def r_def)
  show ?thesis
  proof (cases "allowDec \<and> r \<noteq> [] \<and> hd r = CHR ''.'' \<and> takeWhile is_digit (tl r) \<noteq> []")
    case True
    then obtain r' where r': "r = CHR ''.'' # r'" by (cases r) auto
    have "r' = takeWhile is_digit r' @ dropWhile is_digit r'" by simp
    with u r' have "u = (ip @ CHR ''.'' # takeWhile is_digit r') @ dropWhile is_digit r'" by simp
    moreover from True r' have "unsigned_prefix allowDec u = ip @ CHR ''.'' # takeWhile is_digit r'"
      by (simp add: unsigned_prefix_def Let_def ip_def r_def)
    ultimately show ?thesis by (metis prefixI)
  next
    case False
    then have "unsigned_prefix allowDec u = ip"
      by (auto simp: unsigned_prefix_def Let_def ip_def r_def)
    with u show ?thesis by (metis prefixI)
  qed
qed

lemma unsigned_prefix_text:
  assumes "is_digit d"
  shows "is_unsigned_text allowDec (unsigned_prefix allowDec (d # w))"
proof -
  define u where "u = d # w"
  define ip where "ip = takeWhile is_digit u"
  define r where "r = dropWhile is_digit u"
  define fp where "fp = (if allowDec \<and> r \<noteq> [] \<and> hd r = CHR ''.'' then takeWhile is_digit (tl r) else [])"
  define F where "F = (if fp = [] then [] else CHR ''.'' # fp)"
  have p: "unsigned_prefix allowDec u = ip @ F"
    unfolding unsigned_prefix_def ip_def r_def fp_def F_def Let_def ..
  have ipd: "\<forall>x \<in> set ip. is_digit x" by (auto simp: ip_def dest: set_takeWhileD)
  have ipn: "ip \<noteq> []" using assms by (simp add: ip_def u_def)
  have Fh: "F = [] \<or> \<not> is_digit (hd F)" by (auto simp: F_def is_digit_def)
  have tw: "takeWhile is_digit (ip @ F) = ip"
    using ipd Fh by (cases F) (simp_all add: takeWhile_append2)
  have dw: "dropWhile is_digit (ip @ F) = F"
    using ipd Fh by (cases F) (simp_all add: dropWhile_append2)
  have fpd: "list_all is_digit fp" by (auto simp: fp_def list_all_iff dest: set_takeWhileD)
  have "F = [] \<or> (allowDec \<and> hd F = CHR ''.'' \<and> tl F \<noteq> [] \<and> list_all is_digit (tl F))"
    using fpd by (auto simp: F_def fp_def)
  with ipn show ?thesis
    unfolding u_def [symmetric] p is_unsigned_text_def Let_def tw dw by simp
qed

lemma unsigned_prefix_longest:
  assumes "prefix p u" and "is_unsigned_text allowDec p"
  shows "prefix p (unsigned_prefix allowDec u)"
proof -
  define ip' where "ip' = takeWhile is_digit p"
  define r' where "r' = dropWhile is_digit p"
  have p: "p = ip' @ r'" by (simp add: ip'_def r'_def)
  have ipd: "\<forall>x \<in> set ip'. is_digit x" by (auto simp: ip'_def dest: set_takeWhileD)
  from assms(1) obtain v where u: "u = p @ v" by (auto simp: prefix_def)
  from assms(2) have r: "r' = [] \<or>
      (allowDec \<and> hd r' = CHR ''.'' \<and> tl r' \<noteq> [] \<and> list_all is_digit (tl r'))"
    by (simp add: is_unsigned_text_def Let_def r'_def)
  show ?thesis
  proof (cases "r' = []")
    case True
    with p u have "u = ip' @ v" by simp
    with ipd have "takeWhile is_digit u = ip' @ takeWhile is_digit v"
      by (simp add: takeWhile_append2)
    then have "prefix ip' (unsigned_prefix allowDec u)"
      by (simp add: unsigned_prefix_def Let_def)
    with True p show ?thesis by simp
  next
    case False
    with r obtain fp' where fp': "r' = CHR ''.'' # fp'" "fp' \<noteq> []" "list_all is_digit fp'" allowDec
      by (cases r') auto
    from p u fp' have u': "u = ip' @ CHR ''.'' # fp' @ v" by simp
    have nd: "\<not> is_digit CHR ''.''" by (simp add: is_digit_def)
    from u' ipd nd have tw: "takeWhile is_digit u = ip'" by (simp add: takeWhile_append2)
    from u' ipd nd have dw: "dropWhile is_digit u = CHR ''.'' # fp' @ v"
      by (simp add: dropWhile_append2)
    from fp'(3) have "takeWhile is_digit (fp' @ v) = fp' @ takeWhile is_digit v"
      by (simp add: takeWhile_append2 list_all_iff)
    with tw dw fp' have "unsigned_prefix allowDec u = ip' @ CHR ''.'' # fp' @ takeWhile is_digit v"
      by (simp add: unsigned_prefix_def Let_def)
    with p fp'(1) show ?thesis by simp
  qed
qed


lemma unsigned_prefix_hd:
  "is_digit d \<Longrightarrow> \<exists>P. unsigned_prefix allowDec (d # w) = d # P"
  by (simp add: unsigned_prefix_def Let_def)

lemma parseInt10_unsigned:
  assumes d: "is_digit d"
  shows "parseInt10 (d # w) = Fin (unsigned_value (unsigned_prefix False (d # w)))"
    and "parseInt10 (CHR ''-'' # d # w) = Fin (- unsigned_value (unsigned_prefix False (d # w)))"
proof -
  note nd = is_digit_not_sign [OF d]
  have v: "unsigned_value (unsigned_prefix False (d # w)) =
      of_nat (nat_of_digits (takeWhile is_digit (d # w)))"
    unfolding unsigned_value_prefix by (simp add: nat_of_digits_def)
  show "parseInt10 (d # w) = Fin (unsigned_value (unsigned_prefix False (d # w)))"
    unfolding v using d nd by (simp add: parseInt10_def)
  show "parseInt10 (CHR ''-'' # d # w) = Fin (- unsigned_value (unsigned_prefix False (d # w)))"
    unfolding v using d nd by (simp add: parseInt10_def is_space_def)
qed

lemma exponent_of_none:
  assumes "r = [] \<or> (hd r \<noteq> CHR ''e'' \<and> hd r \<noteq> CHR ''E'')"
  shows "exponent_of r = 1"
  using assms by (auto simp: exponent_of_def)

lemma parseFloat_unsigned:
  assumes d: "is_digit d"
    and w: "\<forall>c \<in> set w. is_digit c \<or> c = CHR ''-'' \<or> c = CHR ''.''"
  shows "parseFloat (d # w) = Fin (unsigned_value (unsigned_prefix True (d # w)))"
    and "parseFloat (CHR ''-'' # d # w) = Fin (- unsigned_value (unsigned_prefix True (d # w)))"
proof -
  note nd = is_digit_not_sign [OF d]
  define u where "u = d # w"
  define ip where "ip = takeWhile is_digit u"
  define r1 where "r1 = dropWhile is_digit u"
  define dot where "dot = (r1 \<noteq> [] \<and> hd r1 = CHR ''.'')"
  define fp where "fp = (if dot then takeWhile is_digit (tl r1) else [])"
  define r2 where "r2 = (if dot then dropWhile is_digit (tl r1) else r1)"
  define q where "q = (of_nat (nat_of_digits ip) + of_nat (nat_of_digits fp) / 10 ^ length fp :: rat)"
  have chars: "is_digit c \<or> c = CHR ''-'' \<or> c = CHR ''.''" if "c \<in> set u" for c
    using that d w by (auto simp: u_def)
  have "set r2 \<subseteq> set u"
  proof
    fix c assume "c \<in> set r2"
    then have "c \<in> set r1"
    proof (cases dot)
      case True
      with \<open>c \<in> set r2\<close> have "c \<in> set (tl r1)"
        by (auto simp: r2_def dest: set_dropWhileD)
      moreover from True have "r1 \<noteq> []" by (simp add: dot_def)
      ultimately show ?thesis by (metis list.set_sel(2))
    next
      case False
      with \<open>c \<in> set r2\<close> show ?thesis by (simp add: r2_def)
    qed
    then show "c \<in> set u" by (auto simp: r1_def dest: set_dropWhileD)
  qed
  moreover have noe: "\<not> (is_digit c \<or> c = CHR ''-'' \<or> c = CHR ''.'')"
    if "c = CHR ''e'' \<or> c = CHR ''E''" for c
    using that by (auto simp: is_digit_def)
  ultimately have "r2 = [] \<or> (hd r2 \<noteq> CHR ''e'' \<and> hd r2 \<noteq> CHR ''E'')"
  proof (cases r2)
    case Nil
    then show ?thesis by simp
  next
    case (Cons x xs)
    with \<open>set r2 \<subseteq> set u\<close> have "x \<in> set u" by simp
    from chars [OF this] noe [of x] Cons show ?thesis by auto
  qed
  then have ex: "exponent_of r2 = 1" by (rule exponent_of_none)
  have ipn: "ip \<noteq> []" using d by (simp add: ip_def u_def)
  have inf: "\<not> prefix ''Infinity'' u" using nd by (auto simp: u_def)
  have v: "unsigned_value (unsigned_prefix True u) = q"
    unfolding unsigned_value_prefix Let_def q_def fp_def dot_def r1_def ip_def by simp
  have lit: "decimal_literal n u = Fin (if n then - q else q)" for n
    using ipn ex
    unfolding decimal_literal_def Let_def q_def fp_def r2_def dot_def r1_def ip_def
    by simp
  have pos: "parseFloat u = Fin q"
    unfolding u_def using nd inf lit [of False] by (simp add: parseFloat_def u_def)
  have neg: "parseFloat (CHR ''-'' # u) = Fin (- q)"
    unfolding u_def using nd inf lit [of True] by (simp add: parseFloat_def u_def is_space_def)
  from pos v show "parseFloat (d # w) = Fin (unsigned_value (unsigned_prefix True (d # w)))"
    by (simp add: u_def)
  from neg v show "parseFloat (CHR ''-'' # d # w) = Fin (- unsigned_value (unsigned_prefix True (d # w)))"
    by (simp add: u_def)
qed

lemma extractNumber_eq:
  "extractNumber (Str s) options =
     (let neg = dflt False (allowNegative options);
          dec = dflt False (allowDecimals options);
          dv = dflt (Fin 0) (defaultValue options);
          matches = concat (map match_text (scan True False (number_re neg dec) s))
      in Inr (if trim s = [] \<or> matches = [] then dv
              else let result = (if dec then parseFloat (concat matches)
                                 else parseInt10 (concat matches))
                   in if isNaN result then dv else result))"
  by (simp add: extractNumber_def RegExp_number_pattern match_def join_Nil Let_def)

lemma numeric_prefix_signed:
  assumes "is_digit d"
  shows "numeric_prefix allowDec (d # w) = unsigned_prefix allowDec (d # w)"
    and "numeric_prefix allowDec (CHR ''-'' # d # w) = CHR ''-'' # unsigned_prefix allowDec (d # w)"
    and "number_value (unsigned_prefix allowDec (d # w)) =
           unsigned_value (unsigned_prefix allowDec (d # w))"
    and "number_value (CHR ''-'' # unsigned_prefix allowDec (d # w)) =
           - unsigned_value (unsigned_prefix allowDec (d # w))"
  using is_digit_not_sign [OF assms] unsigned_prefix_hd [OF assms, of allowDec w]
  by (auto simp: numeric_prefix_def number_value_def)

text \<open>
  A text that begins like a number (a digit, or a minus sign and a digit) and holds only
  digits, minus signs and dots: both parsers give the value of its longest numeric prefix.
\<close>

lemma parse_numeric_prefix:
  assumes t: "t = sign @ d # w" and sign: "sign = [] \<or> sign = ''-''" and d: "is_digit d"
    and chars: "\<forall>c \<in> set t. is_digit c \<or> c = CHR ''-'' \<or> c = CHR ''.''"
  shows "(if allowDec then parseFloat t else parseInt10 t) =
           Fin (number_value (numeric_prefix allowDec t))"
proof -
  from chars t have w: "\<forall>c \<in> set w. is_digit c \<or> c = CHR ''-'' \<or> c = CHR ''.''" by simp
  from sign show ?thesis
  proof
    assume "sign = []"
    with t have "t = d # w" by simp
    then show ?thesis
      using parseInt10_unsigned(1) [OF d, of w] parseFloat_unsigned(1) [OF d w]
        numeric_prefix_signed(1,3) [OF d]
      by (cases allowDec) simp_all
  next
    assume "sign = ''-''"
    with t have "t = CHR ''-'' # d # w" by simp
    then show ?thesis
      using parseInt10_unsigned(2) [OF d, of w] parseFloat_unsigned(2) [OF d w]
        numeric_prefix_signed(2,4) [OF d]
      by (cases allowDec) simp_all
  qed
qed

lemma numeric_prefix_longest:
  assumes t: "t = sign @ d # w" and sign: "sign = [] \<or> sign = ''-''" and d: "is_digit d"
  shows "prefix (numeric_prefix allowDec t) t"
    and "is_number_text True allowDec (numeric_prefix allowDec t)"
    and "prefix p t \<Longrightarrow> is_number_text True allowDec p \<Longrightarrow> prefix p (numeric_prefix allowDec t)"
proof -
  note nd = is_digit_not_sign [OF d]
  from unsigned_prefix_hd [OF d, of allowDec w] obtain P where
    P: "unsigned_prefix allowDec (d # w) = d # P" by blast
  have pre: "prefix (unsigned_prefix allowDec (d # w)) (d # w)" by (rule unsigned_prefix_prefix)
  have ntxt: "is_unsigned_text allowDec (unsigned_prefix allowDec (d # w))"
    by (rule unsigned_prefix_text [OF d])
  from sign have "t = d # w \<or> t = CHR ''-'' # d # w" using t by auto
  then show "prefix (numeric_prefix allowDec t) t"
    using pre numeric_prefix_signed(1,2) [OF d, of allowDec w] by auto
  from \<open>t = d # w \<or> t = CHR ''-'' # d # w\<close>
  show "is_number_text True allowDec (numeric_prefix allowDec t)"
    using ntxt P nd numeric_prefix_signed(1,2) [OF d, of allowDec w]
    by (auto simp: is_number_text_def)
  show "prefix p (numeric_prefix allowDec t)"
    if p: "prefix p t" "is_number_text True allowDec p"
  proof -
    from p(2) have pn: "p \<noteq> []" by (rule number_text_nonempty)
    from \<open>t = d # w \<or> t = CHR ''-'' # d # w\<close> show ?thesis
    proof
      assume td: "t = d # w"
      with p(1) pn have "hd p = d" by (cases p) auto
      with p(2) nd have "is_unsigned_text allowDec p" by (simp add: is_number_text_def)
      from unsigned_prefix_longest [OF p(1) [unfolded td] this] td
      show ?thesis by (simp add: numeric_prefix_signed(1) [OF d])
    next
      assume tm: "t = CHR ''-'' # d # w"
      with p(1) pn obtain p' where p': "p = CHR ''-'' # p'" "prefix p' (d # w)"
        by (cases p) auto
      with p(2) have "is_unsigned_text allowDec p'" by (simp add: is_number_text_def)
      from unsigned_prefix_longest [OF p'(2) this] tm p'(1)
      show ?thesis by (simp add: numeric_prefix_signed(2) [OF d])
    qed
  qed
qed

text \<open>
  Claim C3. For every string, \<open>extractNumber\<close> compiles its pattern to the tree
  \<open>number_re\<close> with the \<open>g\<close> flag and scans the whole input with it: the tokens of the
  scan spell the input (so the matches do not overlap), every match is a number text
  (an optional minus sign if \<open>allowNegative\<close>, one or more digits, an optional fraction
  if \<open>allowDecimals\<close>), and no digit is left outside a match. The texts of the matches are
  concatenated and parsed by \<open>parseFloat\<close> when \<open>allowDecimals\<close> is true and by
  \<open>parseInt\<close> in base 10 otherwise; when the trimmed input is empty, when there is no
  match or when the parse is \<open>NaN\<close>, the result is \<open>defaultValue\<close> (0 by default). The two
  examples of the claim hold.
\<close>

theorem extractNumber_spec:
  fixes options :: ExtractNumberOptions and s :: string
  defines "neg \<equiv> dflt False (allowNegative options)"
    and "dec \<equiv> dflt False (allowDecimals options)"
    and "dv \<equiv> dflt (Fin 0) (defaultValue options)"
  defines "toks \<equiv> scan True False (number_re neg dec) s"
  defines "matches \<equiv> concat (map match_text toks)"
  shows
    "RegExp (number_pattern neg dec) ''g'' =
       Inr \<lparr>rx_source = number_re neg dec, rx_global = True, rx_ignoreCase = False\<rparr> \<and>
     concat (map tok_text toks) = s \<and>
     (\<forall>m \<in> set matches. is_number_text neg dec m) \<and>
     (\<forall>c. Lit c \<in> set toks \<longrightarrow> \<not> is_digit c) \<and>
     extractNumber (Str s) options =
       Inr (if trim s = [] \<or> matches = [] then dv
            else let result = (if dec then parseFloat (concat matches)
                               else parseInt10 (concat matches))
                 in if isNaN result then dv else result) \<and>
     extractNumber (Str ''Price is $123.45'') default_extract = Inr (Fin 12345) \<and>
     extractNumber (Str ''Price is $123.45'') (default_extract\<lparr>allowDecimals := Some True\<rparr>) =
       Inr (Fin (12345 / 100))"
proof (intro conjI)
  show "RegExp (number_pattern neg dec) ''g'' =
       Inr \<lparr>rx_source = number_re neg dec, rx_global = True, rx_ignoreCase = False\<rparr>"
    by (rule RegExp_number_pattern)
  show "concat (map tok_text toks) = s"
    unfolding toks_def by (rule scan_text)
  show "\<forall>m \<in> set matches. is_number_text neg dec m"
  proof
    fix m assume "m \<in> set matches"
    then have "Match m \<in> set toks" by (simp only: matches_def match_text_mem)
    then show "is_number_text neg dec m"
      unfolding toks_def by (rule scan_number_re_matches)
  qed
  show "\<forall>c. Lit c \<in> set toks \<longrightarrow> \<not> is_digit c"
    unfolding toks_def using scan_number_re_lits by blast
  show "extractNumber (Str s) options =
       Inr (if trim s = [] \<or> matches = [] then dv
            else let result = (if dec then parseFloat (concat matches)
                               else parseInt10 (concat matches))
                 in if isNaN result then dv else result)"
    unfolding matches_def toks_def neg_def dec_def dv_def
    by (simp add: extractNumber_def RegExp_number_pattern match_def join_Nil Let_def)
  show "extractNumber (Str ''Price is $123.45'') default_extract = Inr (Fin 12345)"
    by (simp add: number_eval RegExp_number_pattern join_Nil)
  show "extractNumber (Str ''Price is $123.45'') (default_extract\<lparr>allowDecimals := Some True\<rparr>) =
       Inr (Fin (12345 / 100))"
    by (simp add: number_eval RegExp_number_pattern join_Nil)
qed

theorem extractNumber_spec_witness:
  "concat (map match_text (scan True False (number_re True True) ''a-1.5b22'')) = [''-1.5'', ''22''] \<and>
   concat (map tok_text (scan True False (number_re True True) ''a-1.5b22'')) = ''a-1.5b22'' \<and>
   is_number_text True True ''-1.5'' \<and> is_number_text True True ''22'' \<and>
   extractNumber (Str ''a-1.5b22'')
     \<lparr>allowDecimals = Some True, allowNegative = Some True, defaultValue = None\<rparr> =
     Inr (Fin (- 1522 / 1000))"
proof -
  let ?o = "\<lparr>allowDecimals = Some True, allowNegative = Some True, defaultValue = None\<rparr>"
  have m: "concat (map match_text (scan True False (number_re True True) ''a-1.5b22'')) =
      [''-1.5'', ''22'']"
    by (simp add: number_re_def is_digit_def ms.simps(6))
  have o: "dflt False (allowNegative ?o) = True" "dflt False (allowDecimals ?o) = True"
    "dflt (Fin 0) (defaultValue ?o) = Fin 0"
    by (simp_all add: dflt_def)
  have v: "parseFloat ''-1.522'' = Fin (- 1522 / 1000)"
    by (simp add: parseFloat_def decimal_literal_def is_space_def is_digit_def
        nat_of_digits_def digit_val_def exponent_of_def)
  note th = extractNumber_spec [of ?o "''a-1.5b22''", unfolded o m]
  from th v show ?thesis
    unfolding m by (simp add: trim_def is_space_def isNaN_def del: scan.simps)
qed

text \<open>
  Claim C10. When the input has a match, the concatenation of the match texts begins
  with a number text, and the result of \<open>extractNumber\<close> is the number that the longest
  numeric prefix of the concatenation denotes, whatever follows that prefix: never
  \<open>defaultValue\<close> in its place. The example of the claim holds.
\<close>

theorem extractNumber_numeric_prefix:
  fixes options :: ExtractNumberOptions and s :: string
  defines "neg \<equiv> dflt False (allowNegative options)"
    and "dec \<equiv> dflt False (allowDecimals options)"
  defines "matches \<equiv> concat (map match_text (scan True False (number_re neg dec) s))"
  defines "number \<equiv> concat matches"
  shows
    "(trim s \<noteq> [] \<and> matches \<noteq> [] \<longrightarrow>
        extractNumber (Str s) options = Inr (Fin (number_value (numeric_prefix dec number))) \<and>
        prefix (numeric_prefix dec number) number \<and>
        is_number_text True dec (numeric_prefix dec number) \<and>
        (\<forall>p. prefix p number \<and> is_number_text True dec p \<longrightarrow>
               prefix p (numeric_prefix dec number))) \<and>
     extractNumber (Str ''3 -4'') (default_extract\<lparr>allowNegative := Some True\<rparr>) = Inr (Fin 3)"
proof (intro conjI impI)
  assume a: "trim s \<noteq> [] \<and> matches \<noteq> []"
  then obtain m rest where mr: "matches = m # rest" by (cases matches) auto
  have ntxt: "is_number_text neg dec x" if "x \<in> set matches" for x
  proof -
    from that have "Match x \<in> set (scan True False (number_re neg dec) s)"
      by (simp only: matches_def match_text_mem)
    then show ?thesis by (rule scan_number_re_matches)
  qed
  from mr ntxt [of m] have "is_number_text neg dec m" by simp
  from number_text_head [OF this] obtain sign d w where
    m: "m = sign @ d # w" "sign = [] \<or> sign = ''-''" "is_digit d" by blast
  from mr m(1) have t: "number = sign @ d # (w @ concat rest)" by (simp add: number_def)
  have chars: "\<forall>c \<in> set number. is_digit c \<or> c = CHR ''-'' \<or> c = CHR ''.''"
    using ntxt number_text_chars by (fastforce simp: number_def)
  from parse_numeric_prefix [OF t m(2) m(3) chars, of dec]
  have "(if dec then parseFloat number else parseInt10 number) =
      Fin (number_value (numeric_prefix dec number))" .
  moreover have "extractNumber (Str s) options =
      Inr (if trim s = [] \<or> matches = [] then dflt (Fin 0) (defaultValue options)
           else let result = (if dec then parseFloat number else parseInt10 number)
                in if isNaN result then dflt (Fin 0) (defaultValue options) else result)"
    unfolding extractNumber_eq Let_def matches_def number_def neg_def dec_def ..
  ultimately show "extractNumber (Str s) options = Inr (Fin (number_value (numeric_prefix dec number)))"
    using a by (simp add: Let_def isNaN_def)
  show "prefix (numeric_prefix dec number) number"
    by (rule numeric_prefix_longest(1) [OF t m(2) m(3)])
  show "is_number_text True dec (numeric_prefix dec number)"
    by (rule numeric_prefix_longest(2) [OF t m(2) m(3)])
  show "\<forall>p. prefix p number \<and> is_number_text True dec p \<longrightarrow> prefix p (numeric_prefix dec number)"
    using numeric_prefix_longest(3) [OF t m(2) m(3)] by blast
next
  show "extractNumber (Str ''3 -4'') (default_extract\<lparr>allowNegative := Some True\<rparr>) = Inr (Fin 3)"
    by (simp add: number_eval RegExp_number_pattern join_Nil)
qed

theorem extractNumber_numeric_prefix_witness:
  "concat (concat (map match_text (scan True False (number_re True True) ''1.2 3.4x-7.''))) =
     ''1.23.4-7'' \<and>
   numeric_prefix True ''1.23.4-7'' = ''1.23'' \<and>
   is_number_text True True ''1.23'' \<and>
   extractNumber (Str ''1.2 3.4x-7.'')
     \<lparr>allowDecimals = Some True, allowNegative = Some True, defaultValue = Some (Fin 9)\<rparr> =
     Inr (Fin (123 / 100))"
proof -
  let ?o = "\<lparr>allowDecimals = Some True, allowNegative = Some True, defaultValue = Some (Fin 9)\<rparr>"
  have m: "concat (map match_text (scan True False (number_re True True) ''1.2 3.4x-7.'')) =
      [''1.2'', ''3.4'', ''-7'']"
    by (simp add: number_re_def is_digit_def ms.simps(6))
  have o: "dflt False (allowNegative ?o) = True" "dflt False (allowDecimals ?o) = True"
    by (simp_all add: dflt_def)
  have c: "concat [''1.2'', ''3.4'', ''-7''] = ''1.23.4-7''" by simp
  have p: "numeric_prefix True ''1.23.4-7'' = ''1.23''"
    by (simp add: numeric_prefix_def unsigned_prefix_def is_digit_def)
  have v: "number_value ''1.23'' = 123 / 100"
    by (simp add: number_value_def unsigned_value_def is_digit_def nat_of_digits_def digit_val_def)
  note th = extractNumber_numeric_prefix [of "''1.2 3.4x-7.''" ?o, unfolded o m c p v]
  from th show ?thesis
    unfolding m c p by (simp add: trim_def is_space_def del: scan.simps)
qed

section \<open>\<open>replaceString\<close>\<close>

lemma scan_Cls: "scan True i (Cls P) s = map (\<lambda>c. if P c then Match [c] else Lit c) s"
  by (induction s) auto

lemma escapeRegexStr_True: "escapeRegexStr True k = concat (map escape_char k)"
proof -
  have "concat (map (emit (\<lambda>matched. bslash # matched))
           (map (\<lambda>c. if is_syntax_char c then Match [c] else Lit c) k)) =
        concat (map escape_char k)"
    by (induction k) (auto simp: escape_char_def)
  then show ?thesis by (simp add: escapeRegexStr_def replace_def scan_Cls)
qed

lemma escapeRegexStr_False: "escapeRegexStr False k = k"
  by (simp add: escapeRegexStr_def)

lemma parse_escape_char:
  "parse_pattern ((alts, cur, q) # up) (escape_char c @ rest) =
     parse_pattern ((alts, Chr c # cur, False) # up) rest"
proof (cases "is_syntax_char c")
  case True
  then have "c \<noteq> CHR ''d''" by (auto simp: is_syntax_char_def bslash_def)
  with True show ?thesis
    by (simp add: escape_char_def bslash_def)
next
  case False
  then show ?thesis
    by (auto simp: escape_char_def is_syntax_char_def)
qed

lemma parse_escaped_key:
  "parse_pattern ((alts, cur, q) # up) (concat (map escape_char k) @ rest) =
     parse_pattern ((alts, rev (map Chr k) @ cur, if k = [] then q else False) # up) rest"
proof (induction k arbitrary: cur q)
  case Nil
  then show ?case by simp
next
  case (Cons c k)
  have "parse_pattern ((alts, cur, q) # up) (concat (map escape_char (c # k)) @ rest) =
        parse_pattern ((alts, cur, q) # up) (escape_char c @ (concat (map escape_char k) @ rest))"
    by simp
  also have "\<dots> = parse_pattern ((alts, Chr c # cur, False) # up) (concat (map escape_char k) @ rest)"
    by (rule parse_escape_char)
  also have "\<dots> = parse_pattern ((alts, rev (map Chr k) @ Chr c # cur, False) # up) rest"
    using Cons.IH [of "Chr c # cur" False] by simp
  finally show ?case by simp
qed

lemma parse_escaped_keys:
  "keys \<noteq> [] \<Longrightarrow>
     parse_pattern [(alts, [], False)] (join ''|'' (map (\<lambda>k. concat (map escape_char k)) keys)) =
       Inr (alt_list (rev alts @ map literal keys))"
proof (induction keys arbitrary: alts)
  case Nil
  then show ?case by simp
next
  case (Cons k keys)
  show ?case
  proof (cases keys)
    case Nil
    have "parse_pattern [(alts, [], False)] (concat (map escape_char k) @ []) =
          parse_pattern [(alts, rev (map Chr k) @ [], if k = [] then False else False)] []"
      by (rule parse_escaped_key)
    with Nil show ?thesis by (simp add: literal_def)
  next
    case (Cons k2 ks)
    have "parse_pattern [(alts, [], False)]
            (concat (map escape_char k) @ CHR ''|'' # join ''|'' (map (\<lambda>k. concat (map escape_char k)) keys)) =
          parse_pattern [(alts, rev (map Chr k) @ [], if k = [] then False else False)]
            (CHR ''|'' # join ''|'' (map (\<lambda>k. concat (map escape_char k)) keys))"
      by (rule parse_escaped_key)
    also have "\<dots> = parse_pattern [(literal k # alts, [], False)]
            (join ''|'' (map (\<lambda>k. concat (map escape_char k)) keys))"
      by (simp add: literal_def)
    also have "\<dots> = Inr (alt_list (rev (literal k # alts) @ map literal keys))"
      using Cons.IH [of "literal k # alts"] Cons by simp
    finally show ?thesis using Cons by simp
  qed
qed

lemma ms_literal:
  "ms i (literal k) s = (if literal_at i k s then [drop (length k) s] else [])"
proof (induction k arbitrary: s)
  case Nil
  then show ?case by (simp add: literal_def)
next
  case (Cons c k)
  then show ?case by (cases s) (auto simp: literal_def)
qed










lemma RegExp_escaped:
  assumes "keys \<noteq> []"
  shows "RegExp (join ''|'' (map (escapeRegexStr True) keys)) flags =
           Inr \<lparr>rx_source = alt_list (map literal keys), rx_global = (CHR ''g'' \<in> set flags),
                rx_ignoreCase = (CHR ''i'' \<in> set flags)\<rparr>"
proof -
  have "escapeRegexStr True = (\<lambda>k. concat (map escape_char k))"
    by (rule ext) (rule escapeRegexStr_True)
  with parse_escaped_keys [OF assms, of "[]"] show ?thesis
    by (simp add: RegExp_def)
qed






lemma replacer_empty: "replacer ic srs [] = []"
  by (auto simp: replacer_def toLowerCase_def split: option.splits dest: find_Some_iff [THEN iffD1])

lemma replace_empty_subject:
  "replace rx (replacer ic srs) [] = []"
  by (simp add: replace_def replacer_empty split: list.splits)

lemma collect_length: "collect rs = Inr vs \<Longrightarrow> length vs = length rs"
  by (drule collect_Inr_D) simp

lemma stringify_keys:
  "collect (map stringify_entry es) = Inr srs \<Longrightarrow> map fst srs = map fst es"
proof (induction es arbitrary: srs)
  case Nil
  then show ?case by simp
next
  case (Cons e es)
  obtain k v where e: "e = (k, v)" by (cases e)
  from Cons.prems e obtain s rest where
    s: "String_of v = Inr s" "collect (map stringify_entry es) = Inr rest" "srs = (k, s) # rest"
    by (auto simp: stringify_entry_def split: sum.splits)
  from Cons.IH [OF s(2)] s(3) e show ?case by simp
qed

text \<open>What \<open>replaceString\<close> computes once its checks have passed and the keys are escaped.\<close>

lemma replaceString_escaped:
  assumes r: "is_object r"
    and srs: "collect (map stringify_entry (entries_of r)) = Inr srs"
    and ne: "srs \<noteq> []"
    and esc: "dflt True (escapeRegex options)"
  shows "replaceString (Str t) r options =
           Inr (replace \<lparr>rx_source = alt_list (map literal (map fst srs)),
                         rx_global = dflt True (replaceAll options),
                         rx_ignoreCase = dflt True (ignoreCase options)\<rparr>
                  (replacer (dflt True (ignoreCase options)) srs) t)"
proof (cases "t = []")
  case True
  from r have "truthy r" "typeof r = ''object''" by (cases r; simp add: is_object_def)+
  with True show ?thesis by (simp add: replaceString_def replace_empty_subject)
next
  case False
  from r have ok: "truthy r" "typeof r = ''object''" by (cases r; simp add: is_object_def)+
  from collect_length [OF srs] ne have es: "entries_of r \<noteq> []" by auto
  have keys: "map fst srs \<noteq> []" using ne by simp
  have flags: "CHR ''g'' \<in> set ((if dflt True (replaceAll options) then ''g'' else []) @
                                 (if dflt True (ignoreCase options) then ''i'' else [])) \<longleftrightarrow>
               dflt True (replaceAll options)"
    "CHR ''i'' \<in> set ((if dflt True (replaceAll options) then ''g'' else []) @
                                 (if dflt True (ignoreCase options) then ''i'' else [])) \<longleftrightarrow>
               dflt True (ignoreCase options)"
    by auto
  show ?thesis
    unfolding replaceString_def
    using False ok es esc
    by (simp add: srs Let_def RegExp_escaped [OF keys] del: map_map)
qed




lemmas replace_eval = replaceString_def default_replace_def dflt_def stringify_entry_def
  escapeRegexStr_def replace_def RegExp_def is_syntax_char_def bslash_def replacer_def
  toLowerCase_def lower_char_def canon_def quantify_def

lemma is_object_truthy: "is_object r \<longleftrightarrow> truthy r \<and> typeof r = ''object''"
  by (cases r) (simp_all add: is_object_def)

lemma replaceString_raw_error:
  assumes r: "is_object r" and t: "t \<noteq> []"
    and srs: "collect (map stringify_entry (entries_of r)) = Inr srs" and ne: "srs \<noteq> []"
    and esc: "\<not> dflt True (escapeRegex options)"
    and bad: "parse_pattern [([], [], False)] (join ''|'' (map fst srs)) = Inl SyntaxError"
  shows "replaceString (Str t) r options = Inl SyntaxError"
proof -
  from r have ok: "truthy r" "typeof r = ''object''" by (simp_all add: is_object_truthy)
  from collect_length [OF srs] ne have es: "entries_of r \<noteq> []" by auto
  have raw: "escapeRegexStr False = (\<lambda>k. k)" by (rule ext) (rule escapeRegexStr_False)
  from bad have "RegExp (join ''|'' (map fst srs)) flags = Inl SyntaxError" for flags
    by (simp add: RegExp_def)
  with t ok es esc show ?thesis
    by (simp add: replaceString_def srs Let_def raw del: map_map)
qed

text \<open>
  Claim C5, as the claim words it, fails in three ways. An array is no mapping, but it
  passes the check of \<open>replacements\<close> (\<open>typeof\<close> gives \<open>object\<close>) and is read through its
  indices. With an empty text the function returns before any pattern is built, so an
  invalid key raises nothing. And two keys that are each invalid pattern syntax can join
  to a valid alternation: \<open>(\<close> and \<open>)\<close> give \<open>(|)\<close>.
\<close>

theorem replaceString_errors_counterexample:
  "replaceString (Str ''a0'') (Arr [Str ''x'']) default_replace = Inr ''ax'' \<and>
   parse_pattern [([], [], False)] ''+'' = Inl SyntaxError \<and>
   replaceString (Str []) (Obj [(''+'', Str ''plus'')])
     (default_replace\<lparr>escapeRegex := Some False\<rparr>) = Inr [] \<and>
   parse_pattern [([], [], False)] ''('' = Inl SyntaxError \<and>
   parse_pattern [([], [], False)] '')'' = Inl SyntaxError \<and>
   replaceString (Str ''x'') (Obj [(''('', Str ''a''), ('')'', Str ''b'')])
     (default_replace\<lparr>escapeRegex := Some False\<rparr>) = Inr ''x''"
  by code_simp

text \<open>
  Claim C5, amended. \<open>replaceString\<close> fails with a \<open>TypeError\<close> when \<open>text\<close> is not a
  string, and when \<open>replacements\<close> is neither a mapping nor a sequence (\<open>null\<close>,
  \<open>undefined\<close> or a primitive). When \<open>escapeRegex\<close> is true (the default), every key is
  escaped character by character, the pattern compiles to the alternation of the keys
  taken literally, a literal key matches exactly where the key stands in the subject,
  and the call returns. When \<open>escapeRegex\<close> is false, the text is not empty, there is at
  least one entry and the keys joined by \<open>|\<close> are invalid pattern syntax, the call fails
  with a syntax error; the single key \<open>+\<close> is such a case.
\<close>

theorem replaceString_errors:
  "(typeof input \<noteq> ''string'' \<longrightarrow>
      replaceString input r options = Inl (TypeError ''Input text must be a string'')) \<and>
   (\<not> is_object r \<longrightarrow>
      replaceString (Str t) r options = Inl (TypeError ''Replacements must be an object'')) \<and>
   (keys \<noteq> [] \<longrightarrow>
      RegExp (join ''|'' (map (escapeRegexStr True) keys)) flags =
        Inr \<lparr>rx_source = alt_list (map literal keys), rx_global = (CHR ''g'' \<in> set flags),
             rx_ignoreCase = (CHR ''i'' \<in> set flags)\<rparr>) \<and>
   escapeRegexStr True k = concat (map escape_char k) \<and>
   ms i (literal k) s = (if literal_at i k s then [drop (length k) s] else []) \<and>
   (is_object r \<and> collect (map stringify_entry (entries_of r)) = Inr srs \<and>
    dflt True (escapeRegex options) \<longrightarrow>
      (\<exists>out. replaceString (Str t) r options = Inr out)) \<and>
   (is_object r \<and> t \<noteq> [] \<and> collect (map stringify_entry (entries_of r)) = Inr srs \<and>
    srs \<noteq> [] \<and> \<not> dflt True (escapeRegex options) \<and>
    parse_pattern [([], [], False)] (join ''|'' (map fst srs)) = Inl SyntaxError \<longrightarrow>
      replaceString (Str t) r options = Inl SyntaxError) \<and>
   replaceString (Str ''1 + 1 = 2'') (Obj [(''+'', Str ''plus'')])
     (default_replace\<lparr>escapeRegex := Some False\<rparr>) = Inl SyntaxError"
proof (intro conjI impI)
  show "replaceString input r options = Inl (TypeError ''Input text must be a string'')"
    if "typeof input \<noteq> ''string''"
    using that by (cases input) (simp_all add: replaceString_def)
  show "replaceString (Str t) r options = Inl (TypeError ''Replacements must be an object'')"
    if "\<not> is_object r"
    using that by (auto simp: replaceString_def is_object_truthy)
  show "RegExp (join ''|'' (map (escapeRegexStr True) keys)) flags =
        Inr \<lparr>rx_source = alt_list (map literal keys), rx_global = (CHR ''g'' \<in> set flags),
             rx_ignoreCase = (CHR ''i'' \<in> set flags)\<rparr>"
    if "keys \<noteq> []"
    using that by (rule RegExp_escaped)
  show "escapeRegexStr True k = concat (map escape_char k)"
    by (rule escapeRegexStr_True)
  show "ms i (literal k) s = (if literal_at i k s then [drop (length k) s] else [])"
    by (rule ms_literal)
  show "\<exists>out. replaceString (Str t) r options = Inr out"
    if a: "is_object r \<and> collect (map stringify_entry (entries_of r)) = Inr srs \<and>
        dflt True (escapeRegex options)"
  proof (cases "srs = []")
    case True
    with a collect_length [of "map stringify_entry (entries_of r)" srs]
    have "entries_of r = []" by simp
    with a show ?thesis by (simp add: replaceString_def is_object_truthy)
  next
    case False
    with a replaceString_escaped [of r srs options t] show ?thesis by blast
  qed
  show "replaceString (Str t) r options = Inl SyntaxError"
    if "is_object r \<and> t \<noteq> [] \<and> collect (map stringify_entry (entries_of r)) = Inr srs \<and>
        srs \<noteq> [] \<and> \<not> dflt True (escapeRegex options) \<and>
        parse_pattern [([], [], False)] (join ''|'' (map fst srs)) = Inl SyntaxError"
    using that replaceString_raw_error by blast
  show "replaceString (Str ''1 + 1 = 2'') (Obj [(''+'', Str ''plus'')])
     (default_replace\<lparr>escapeRegex := Some False\<rparr>) = Inl SyntaxError"
    by (simp add: replace_eval)
qed

theorem replaceString_errors_witness:
  "replaceString (Num (Fin 5)) (Obj []) default_replace =
     Inl (TypeError ''Input text must be a string'') \<and>
   replaceString (Str ''a'') Null default_replace =
     Inl (TypeError ''Replacements must be an object'') \<and>
   RegExp (join ''|'' (map (escapeRegexStr True) [''a.b'', ''+''])) ''g'' =
     Inr \<lparr>rx_source = Alt (literal ''a.b'') (literal ''+''), rx_global = True, rx_ignoreCase = False\<rparr> \<and>
   escapeRegexStr True ''a.b'' = [CHR ''a'', bslash, CHR ''.'', CHR ''b''] \<and>
   ms False (literal ''a.b'') ''a.bc'' = [''c''] \<and> ms False (literal ''a.b'') ''axbc'' = [] \<and>
   replaceString (Str ''1 + 1'') (Obj [(''+'', Str ''plus'')]) default_replace = Inr ''1 plus 1'' \<and>
   replaceString (Str ''a+'') (Obj [(''a'', Str ''b''), (''+'', Str ''plus'')])
     (default_replace\<lparr>escapeRegex := Some False\<rparr>) = Inl SyntaxError"
proof -
  let ?raw = "default_replace\<lparr>escapeRegex := Some False\<rparr>"
  let ?r = "Obj [(''a'', Str ''b''), (''+'', Str ''plus'')]"
  have raw: "\<not> dflt True (escapeRegex ?raw)" and esc: "dflt True (escapeRegex default_replace)"
    by (simp_all add: default_replace_def dflt_def)
  have srs: "collect (map stringify_entry (entries_of ?r)) = Inr [(''a'', ''b''), (''+'', ''plus'')]"
    by (simp add: stringify_entry_def)
  have bad: "parse_pattern [([], [], False)] (join ''|'' (map fst [(''a'', ''b''), (''+'', ''plus'')])) =
      Inl SyntaxError"
    by (simp add: bslash_def)
  have plus: "replaceString (Str ''1 + 1'') (Obj [(''+'', Str ''plus'')]) default_replace = Inr ''1 plus 1''"
    by code_simp
  have lit: "literal_at False ''a.b'' ''a.bc''" "\<not> literal_at False ''a.b'' ''axbc''"
    by simp_all
  note th = replaceString_errors [where input = "Num (Fin 5)" and r = "Obj []"
      and options = default_replace and keys = "[''a.b'', ''+'']" and flags = "''g''"
      and k = "''a.b''" and i = False and s = "''a.bc''"]
    replaceString_errors [where r = Null and t = "''a''" and options = default_replace
      and k = "''a.b''" and i = False and s = "''axbc''"]
    replaceString_errors [where r = ?r and t = "''a+''" and options = ?raw
      and srs = "[(''a'', ''b''), (''+'', ''plus'')]"]
  from th raw srs bad plus lit show ?thesis
    by (simp add: is_object_def escape_char_def is_syntax_char_def bslash_def)
qed


section \<open>Determinism and the arguments\<close>

text \<open>
  Claim C8 is not stated here. Each function of this theory is a function of its
  arguments in the logic, so that equal arguments give equal results holds of the
  embedding by construction, and the embedding has no store in which an argument could
  be changed. A statement about repeated calls and about the objects passed in needs a
  semantics of JavaScript with references and with callbacks that can have effects.
\<close>

end
